theory Spec2Isabelle
  imports Complex_Main "HOL-Library.Log_Nat"
begin

section \<open>Numbers\<close>

text \<open>
  The C++ types \<open>float\<close> and \<open>double\<close> are modelled by \<open>real\<close>, and an operation the
  source computes in \<open>float\<close> or \<open>double\<close> rounds its exact result to binary32 or to
  binary64: the loop variable \<open>alpha\<close> of the focal stack, the scaled coordinates of the
  warp and the projection of the point marker. The values of the pixels, whose arithmetic is
  the image buffer's, and the arguments handed to the external operators are taken exact.
  The type \<open>int\<close> of the source is modelled by the unbounded \<open>int\<close>: every integer the
  operations compute is an index or an extent of an image.

  Rounding is to nearest with ties to even. \<open>float_round\<close> rounds a real to binary32:
  \<open>round_mag\<close> rounds the magnitude \<open>y\<close>, in units of the smallest subnormal \<open>2 ^ -149\<close>,
  to 24 significant bits, dropping the \<open>k\<close> lowest bits of a longer value, rounded by
  \<open>rne\<close>. \<open>double_round\<close> rounds to binary64 in the same way: \<open>round_bits 53\<close> rounds the
  magnitude, in units of \<open>2 ^ -1074\<close>, to 53 significant bits. Results beyond the largest
  finite value of a format, which the machine turns into an infinity, are outside this
  model.
\<close>

definition rne :: "real \<Rightarrow> int" where
  "rne r =
     (let f = \<lfloor>r\<rfloor>; d = r - of_int f
      in if d < 1 / 2 then f else if 1 / 2 < d then f + 1 else if even f then f else f + 1)"

definition round_mag :: "real \<Rightarrow> real" where
  "round_mag y = (let k = nat (bitlen \<lfloor>y\<rfloor> - 24) in of_int (rne (y / 2 ^ k) * 2 ^ k))"

definition float_round :: "real \<Rightarrow> real" where
  "float_round x = sgn x * round_mag (\<bar>x\<bar> * 2 ^ 149) / 2 ^ 149"

definition round_bits :: "nat \<Rightarrow> real \<Rightarrow> real" where
  "round_bits p y = (let k = nat (bitlen \<lfloor>y\<rfloor> - int p) in of_int (rne (y / 2 ^ k) * 2 ^ k))"

definition double_round :: "real \<Rightarrow> real" where
  "double_round x = sgn x * round_bits 53 (\<bar>x\<bar> * 2 ^ 1074) / 2 ^ 1074"

text \<open>
  The operations of the source on \<open>float\<close> and on \<open>double\<close> values, and the conversion of
  an \<open>int\<close> to \<open>float\<close>. The conversion of a 32-bit \<open>int\<close> to \<open>double\<close> is exact.
\<close>

definition float_add :: "real \<Rightarrow> real \<Rightarrow> real" where
  "float_add a b = float_round (a + b)"

definition float_mul :: "real \<Rightarrow> real \<Rightarrow> real" where
  "float_mul a b = float_round (a * b)"

definition float_of_int :: "int \<Rightarrow> real" where
  "float_of_int n = float_round (real_of_int n)"

definition double_add :: "real \<Rightarrow> real \<Rightarrow> real" where
  "double_add a b = double_round (a + b)"

definition double_sub :: "real \<Rightarrow> real \<Rightarrow> real" where
  "double_sub a b = double_round (a - b)"

definition double_mul :: "real \<Rightarrow> real \<Rightarrow> real" where
  "double_mul a b = double_round (a * b)"

text \<open>
  \<open>c_int\<close> is the conversion \<open>(int) d\<close> of a floating-point value: it truncates toward
  zero. Outside the range of a 32-bit \<open>int\<close> C++ leaves the conversion undefined; the
  model returns what the x86-64 conversion instruction returns there, the smallest
  \<open>int\<close>.
\<close>

definition c_int :: "real \<Rightarrow> int" where
  "c_int d =
     (if - 2147483649 < d \<and> d < 2147483648
      then (if 0 \<le> d then \<lfloor>d\<rfloor> else \<lceil>d\<rceil>)
      else - 2147483648)"

text \<open>
  Modelled from the spec: \<open>clamp\<close> is declared in a header that is not part of the
  sources at hand; the spec says the fast path of the warp clamps each index "to its valid
  range", here the range from \<open>lo\<close> to \<open>hi\<close>.
\<close>

definition clamp :: "int \<Rightarrow> int \<Rightarrow> int \<Rightarrow> int" where
  "clamp a lo hi = (if a < lo then lo else if hi < a then hi else a)"

section \<open>Errors and loops\<close>

text \<open>
  \<open>Panic\<close> is a failed \<open>assert\<close> of the source. \<open>OutOfBounds\<close> stands for an element
  access outside the extents of an image, which the unchecked accessors of the source
  leave undefined.
\<close>

datatype error = Panic | OutOfBounds

definition bindE :: "error + 'a \<Rightarrow> ('a \<Rightarrow> error + 'b) \<Rightarrow> error + 'b" where
  "bindE m f = (case m of Inl e \<Rightarrow> Inl e | Inr a \<Rightarrow> f a)"

fun for_each :: "'a list \<Rightarrow> ('a \<Rightarrow> 's \<Rightarrow> error + 's) \<Rightarrow> 's \<Rightarrow> error + 's" where
  "for_each [] body s = Inr s"
| "for_each (i # is) body s = bindE (body i s) (for_each is body)"

text \<open>The loop \<open>for (int i = 0; i < n; i++) body\<close>, threading the state \<open>s\<close>.\<close>

definition for_loop :: "int \<Rightarrow> (int \<Rightarrow> 's \<Rightarrow> error + 's) \<Rightarrow> 's \<Rightarrow> error + 's" where
  "for_loop n body s = for_each (map int [0..<nat n]) body s"

section \<open>Image buffers\<close>

text \<open>
  Modelled from the spec: the class \<open>NewImage\<close> is declared outside the sources at hand.
  The spec describes it as a dense 4D array with element access by
  \<open>(x, y, frame, channel)\<close>, extents, and elementwise arithmetic; an index outside the
  extents is undefined behaviour. The order of the constructor's arguments, width, height,
  frames, channels, is the one the focal stack uses when it allocates its output
  (\<open>NewImage out(lf.xSize, lf.ySize, frames, lf.image.channels)\<close>) and its view
  (\<open>NewImage view(lf.xSize, lf.ySize, 1, lf.image.channels)\<close>). A fresh buffer holds zeros:
  the focal stack accumulates into one.
\<close>

record NewImage =
  width :: int
  height :: int
  frames :: int
  channels :: int
  data :: "int \<times> int \<times> int \<times> int \<Rightarrow> real"

definition new_image :: "int \<Rightarrow> int \<Rightarrow> int \<Rightarrow> int \<Rightarrow> NewImage" where
  "new_image w h f c = \<lparr>width = w, height = h, frames = f, channels = c, data = (\<lambda>p. 0)\<rparr>"

definition in_image :: "NewImage \<Rightarrow> int \<Rightarrow> int \<Rightarrow> int \<Rightarrow> int \<Rightarrow> bool" where
  "in_image im x y t c \<longleftrightarrow>
     0 \<le> x \<and> x < width im \<and> 0 \<le> y \<and> y < height im \<and>
     0 \<le> t \<and> t < frames im \<and> 0 \<le> c \<and> c < channels im"

definition im_get :: "NewImage \<Rightarrow> int \<Rightarrow> int \<Rightarrow> int \<Rightarrow> int \<Rightarrow> error + real" where
  "im_get im x y t c =
     (if in_image im x y t c then Inr (data im (x, y, t, c)) else Inl OutOfBounds)"

definition im_set :: "NewImage \<Rightarrow> int \<Rightarrow> int \<Rightarrow> int \<Rightarrow> int \<Rightarrow> real \<Rightarrow> error + NewImage" where
  "im_set im x y t c a =
     (if in_image im x y t c then Inr (im\<lparr>data := (data im)((x, y, t, c) := a)\<rparr>)
      else Inl OutOfBounds)"

section \<open>The light field view\<close>

text \<open>
  Modelled from the spec: the class \<open>LightField\<close> is declared outside the sources at
  hand. It wraps an image buffer and the lenslet extents \<open>uSize\<close> and \<open>vSize\<close>, derives
  the spatial extents by division, and maps the ray \<open>(x, y, u, v)\<close> to the buffer pixel
  \<open>(x * uSize + u, y * vSize + v)\<close> of the first frame. The indices are constrained to
  \<open>0 \<le> x < xSize\<close>, \<open>0 \<le> y < ySize\<close>, \<open>0 \<le> u < uSize\<close>, \<open>0 \<le> v < vSize\<close>; outside,
  the access is undefined. The constructor \<open>light_field\<close> is meant for positive lenslet
  extents that divide the extents of the buffer; the operations take a light field as it
  is, and the properties below state the invariant \<open>lf_wf\<close> they need.
\<close>

record LightField =
  image_lf :: NewImage
  uSize :: int
  vSize :: int
  xSize :: int
  ySize :: int

definition light_field :: "NewImage \<Rightarrow> int \<Rightarrow> int \<Rightarrow> LightField" where
  "light_field im u v =
     \<lparr>image_lf = im, uSize = u, vSize = v, xSize = width im div u, ySize = height im div v\<rparr>"

definition in_lf :: "LightField \<Rightarrow> int \<Rightarrow> int \<Rightarrow> int \<Rightarrow> int \<Rightarrow> bool" where
  "in_lf lf x y u v \<longleftrightarrow>
     0 \<le> x \<and> x < xSize lf \<and> 0 \<le> y \<and> y < ySize lf \<and>
     0 \<le> u \<and> u < uSize lf \<and> 0 \<le> v \<and> v < vSize lf"

definition lf_get :: "LightField \<Rightarrow> int \<Rightarrow> int \<Rightarrow> int \<Rightarrow> int \<Rightarrow> int \<Rightarrow> error + real" where
  "lf_get lf x y u v c =
     (if in_lf lf x y u v then im_get (image_lf lf) (x * uSize lf + u) (y * vSize lf + v) 0 c
      else Inl OutOfBounds)"

definition lf_set ::
  "LightField \<Rightarrow> int \<Rightarrow> int \<Rightarrow> int \<Rightarrow> int \<Rightarrow> int \<Rightarrow> real \<Rightarrow> error + LightField" where
  "lf_set lf x y u v c a =
     (if in_lf lf x y u v
      then bindE (im_set (image_lf lf) (x * uSize lf + u) (y * vSize lf + v) 0 c a)
             (\<lambda>im. Inr (lf\<lparr>image_lf := im\<rparr>))
      else Inl OutOfBounds)"

text \<open>
  The invariant of a light field: positive lenslet extents, a buffer of at least one frame
  whose width and height are the exact multiples \<open>xSize * uSize\<close> and \<open>ySize * vSize\<close>, and
  extents and a number of views \<open>uSize * vSize\<close> that fit the 32-bit \<open>int\<close> of the source.
\<close>

definition lf_wf :: "LightField \<Rightarrow> bool" where
  "lf_wf lf \<longleftrightarrow>
     0 < uSize lf \<and> 0 < vSize lf \<and> 0 \<le> xSize lf \<and> 0 \<le> ySize lf \<and>
     width (image_lf lf) = xSize lf * uSize lf \<and> height (image_lf lf) = ySize lf * vSize lf \<and>
     width (image_lf lf) < 2147483648 \<and> height (image_lf lf) < 2147483648 \<and>
     uSize lf * vSize lf < 2147483648 \<and>
     0 < frames (image_lf lf) \<and> 0 \<le> channels (image_lf lf)"

section \<open>The warp resampler\<close>

text \<open>
  \<open>LFWarp::apply\<close>. The quadrilinear sampler \<open>sample4D\<close> of the light field is declared
  outside the sources at hand and is a parameter: \<open>sample4D lf lx ly lu lv t c\<close> is the
  value it stores for channel \<open>c\<close>.

  The scaled coordinates \<open>lx\<close>, \<open>ly\<close>, \<open>lu\<close>, \<open>lv\<close> are \<open>float\<close> variables: each is the
  binary32 product of a map value and an extent converted to \<open>float\<close>. In the fast path
  \<open>lx + 0.5\<close> is an addition in \<open>double\<close>.
  \<open>LFWarp_index\<close> is the fast path's computation of the four indices (the conversions and
  the clamps in front of the channel loop); \<open>LFWarp_pixel\<close> is the body of the loop over
  the output pixels; \<open>LFWarp_out\<close> is the output image as the source allocates it, the
  arguments in the source's order; \<open>LFWarp_apply\<close> runs the loops on it.
\<close>

type_synonym sampler = "LightField \<Rightarrow> real \<Rightarrow> real \<Rightarrow> real \<Rightarrow> real \<Rightarrow> int \<Rightarrow> int \<Rightarrow> real"

definition LFWarp_index :: "LightField \<Rightarrow> real \<Rightarrow> real \<Rightarrow> real \<Rightarrow> real \<Rightarrow> int \<times> int \<times> int \<times> int" where
  "LFWarp_index lf lx ly lu lv =
     (let ilx = c_int (double_add lx 0.5);
          ily = c_int (double_add ly 0.5);
          ilu = c_int (double_add lu 0.5);
          ilv = c_int (double_add lv 0.5)
      in (clamp ilx 0 (xSize lf - 1), clamp ily 0 (ySize lf - 1),
          clamp ilu 0 (uSize lf - 1), clamp ilv 0 (vSize lf - 1)))"

definition LFWarp_pixel ::
  "sampler \<Rightarrow> LightField \<Rightarrow> NewImage \<Rightarrow> bool \<Rightarrow> int \<Rightarrow> int \<Rightarrow> int \<Rightarrow> NewImage \<Rightarrow> error + NewImage" where
  "LFWarp_pixel sample4D lf warper quick t y x out =
     bindE (im_get warper x y t 0) (\<lambda>w0.
     bindE (im_get warper x y t 1) (\<lambda>w1.
     bindE (im_get warper x y t 2) (\<lambda>w2.
     bindE (im_get warper x y t 3) (\<lambda>w3.
       let lx = float_mul w0 (float_of_int (xSize lf - 1));
           ly = float_mul w1 (float_of_int (ySize lf - 1));
           lu = float_mul w2 (float_of_int (uSize lf - 1));
           lv = float_mul w3 (float_of_int (vSize lf - 1))
       in if \<not> quick
          then for_loop (channels (image_lf lf))
                 (\<lambda>c out. im_set out x y t c (sample4D lf lx ly lu lv t c)) out
          else (case LFWarp_index lf lx ly lu lv of (ilx, ily, ilu, ilv) \<Rightarrow>
                 for_loop (channels (image_lf lf))
                   (\<lambda>c out. bindE (lf_get lf ilx ily ilu ilv c) (im_set out x y t c)) out)))))"

definition LFWarp_out :: "LightField \<Rightarrow> NewImage \<Rightarrow> NewImage" where
  "LFWarp_out lf warper =
     new_image (frames warper) (width warper) (height warper) (channels (image_lf lf))"

definition LFWarp_apply :: "sampler \<Rightarrow> LightField \<Rightarrow> NewImage \<Rightarrow> bool \<Rightarrow> error + NewImage" where
  "LFWarp_apply sample4D lf warper quick =
     (let out = LFWarp_out lf warper
      in for_loop (frames warper) (\<lambda>t.
           for_loop (height warper) (\<lambda>y.
             for_loop (width warper) (\<lambda>x.
               LFWarp_pixel sample4D lf warper quick t y x))) out)"

section \<open>The point marker\<close>

text \<open>
  \<open>LFPoint::apply\<close>. The offsets \<open>pu\<close> and \<open>pv\<close> of the view \<open>(u, v)\<close> are computed in
  \<open>double\<close> and stored in \<open>float\<close> variables (\<open>LFPoint_offset\<close>); \<open>LFPoint_scaled\<close> is the
  pair of the scaled coordinates \<open>(px + pz * pu) * lf.xSize\<close> and \<open>(py + pz * pv) * lf.ySize\<close>,
  which the source computes in \<open>float\<close>; \<open>LFPoint_project\<close> is the pixel \<open>(x, y)\<close> the source
  computes from them, adding \<open>0.5\<close> in \<open>double\<close> and converting to \<open>int\<close>. \<open>LFPoint_view\<close> is
  the body of the loop over the views, with the \<open>continue\<close> of the source as the branch that
  returns the light field unchanged. The light field is passed by value and shares its buffer
  with the caller's: the model returns the light field with the buffer as the writes leave
  it.
\<close>

definition LFPoint_offset :: "int \<Rightarrow> int \<Rightarrow> real" where
  "LFPoint_offset u n =
     float_round (double_sub (double_add (real_of_int u) 0.5) (double_mul (real_of_int n) 0.5))"

definition LFPoint_scaled :: "LightField \<Rightarrow> real \<Rightarrow> real \<Rightarrow> real \<Rightarrow> int \<Rightarrow> int \<Rightarrow> real \<times> real" where
  "LFPoint_scaled lf px py pz u v =
     (let pu = LFPoint_offset u (uSize lf);
          pv = LFPoint_offset v (vSize lf)
      in (float_mul (float_add px (float_mul pz pu)) (float_of_int (xSize lf)),
          float_mul (float_add py (float_mul pz pv)) (float_of_int (ySize lf))))"

definition LFPoint_project :: "LightField \<Rightarrow> real \<Rightarrow> real \<Rightarrow> real \<Rightarrow> int \<Rightarrow> int \<Rightarrow> int \<times> int" where
  "LFPoint_project lf px py pz u v =
     (case LFPoint_scaled lf px py pz u v of (sx, sy) \<Rightarrow>
        (c_int (double_add sx 0.5), c_int (double_add sy 0.5)))"

definition LFPoint_view ::
  "real \<Rightarrow> real \<Rightarrow> real \<Rightarrow> int \<Rightarrow> int \<Rightarrow> LightField \<Rightarrow> error + LightField" where
  "LFPoint_view px py pz v u lf =
     (case LFPoint_project lf px py pz u v of (x, y) \<Rightarrow>
        if x < 0 \<or> x \<ge> xSize lf \<or> y < 0 \<or> y \<ge> ySize lf then Inr lf
        else for_loop (channels (image_lf lf)) (\<lambda>c lf. lf_set lf x y u v c 1) lf)"

definition LFPoint_apply :: "LightField \<Rightarrow> real \<Rightarrow> real \<Rightarrow> real \<Rightarrow> error + LightField" where
  "LFPoint_apply lf px py pz =
     for_loop (vSize lf) (\<lambda>v. for_loop (uSize lf) (\<lambda>u. LFPoint_view px py pz v u)) lf"

section \<open>The focal stack\<close>

subsection \<open>The loop variable \<open>alpha\<close>\<close>

text \<open>
  The first loop of \<open>LFFocalStack::apply\<close>,
  \<open>for (float alpha = minAlpha; alpha <= maxAlpha; alpha += deltaAlpha) frames++\<close>, with
  the counter \<open>frames\<close> of the source as \<open>nframes\<close>. \<open>alpha\<close> is a \<open>float\<close>, and
  \<open>alpha += deltaAlpha\<close> is the binary32 addition \<open>float_add\<close>. The loop may run forever:
  not returning is the value \<open>None\<close>.
\<close>

partial_function (option) count_loop :: "real \<Rightarrow> real \<Rightarrow> real \<Rightarrow> int \<Rightarrow> int option" where
  "count_loop alpha maxAlpha deltaAlpha nframes =
     (if alpha \<le> maxAlpha
      then count_loop (float_add alpha deltaAlpha) maxAlpha deltaAlpha (nframes + 1)
      else Some nframes)"

text \<open>
  The second loop, with the same header, the frame index \<open>t\<close> that it increments, and
  the work on one frame as the parameter \<open>body\<close>. A failure of the body ends the run:
  \<open>isl\<close> tells a failure \<open>Inl e\<close> from a result \<open>Inr s\<close>.
\<close>

partial_function (option) process_loop ::
  "(int \<Rightarrow> real \<Rightarrow> 's \<Rightarrow> error + 's) \<Rightarrow> real \<Rightarrow> real \<Rightarrow> real \<Rightarrow> int \<Rightarrow> 's \<Rightarrow> (error + 's) option" where
  "process_loop body alpha maxAlpha deltaAlpha t s =
     (if alpha \<le> maxAlpha
      then (if isl (body t alpha s) then Some (Inl (projl (body t alpha s)))
            else process_loop body (float_add alpha deltaAlpha) maxAlpha deltaAlpha (t + 1)
                   (projr (body t alpha s)))
      else Some (Inr s))"

subsection \<open>The work on one view\<close>

text \<open>
  Modelled from the spec: \<open>out.frame(t) += view\<close> and \<open>out /= n\<close> are the elementwise
  arithmetic of the image buffer. \<open>frame_add\<close> adds the one frame of \<open>view\<close> to frame
  \<open>t\<close> of \<open>out\<close>; a frame that \<open>out\<close> does not have is out of bounds, and operands of
  different extents are refused.
\<close>

definition frame_add :: "NewImage \<Rightarrow> int \<Rightarrow> NewImage \<Rightarrow> error + NewImage" where
  "frame_add out t view =
     (if \<not> (0 \<le> t \<and> t < frames out) then Inl OutOfBounds
      else if width view \<noteq> width out \<or> height view \<noteq> height out \<or>
              channels view \<noteq> channels out \<or> frames view \<noteq> 1 then Inl Panic
      else Inr (out\<lparr>data := (\<lambda>(x, y, t', c).
             if t' = t then data out (x, y, t', c) + data view (x, y, 0, c)
             else data out (x, y, t', c))\<rparr>))"

definition image_div :: "NewImage \<Rightarrow> real \<Rightarrow> NewImage" where
  "image_div im a = im\<lparr>data := (\<lambda>p. data im p / a)\<rparr>"

text \<open>
  The translate and the blur operators are external and are parameters.
  \<open>extract_view\<close> is the copy of the view \<open>(u, v)\<close> into \<open>view\<close>, \<open>shift_view\<close> the
  conditional translation, \<open>blur_view\<close> the conditional blur, and \<open>view_step\<close> the body
  of the loop over the views, on the pair of the output and the view buffer.
\<close>

type_synonym translate = "NewImage \<Rightarrow> real \<Rightarrow> real \<Rightarrow> NewImage"

type_synonym blur = "NewImage \<Rightarrow> real \<Rightarrow> real \<Rightarrow> real \<Rightarrow> NewImage"

definition extract_view :: "LightField \<Rightarrow> int \<Rightarrow> int \<Rightarrow> NewImage \<Rightarrow> error + NewImage" where
  "extract_view lf u v view =
     for_loop (ySize lf) (\<lambda>y.
       for_loop (xSize lf) (\<lambda>x.
         for_loop (channels (image_lf lf)) (\<lambda>c view.
           bindE (lf_get lf x y u v c) (im_set view x y 0 c)))) view"

definition shift_view :: "translate \<Rightarrow> LightField \<Rightarrow> real \<Rightarrow> int \<Rightarrow> int \<Rightarrow> NewImage \<Rightarrow> NewImage" where
  "shift_view Translate lf alpha u v view =
     (if alpha * real_of_int u \<noteq> 0 \<or> alpha * real_of_int v \<noteq> 0
      then Translate view
             ((real_of_int u - real_of_int (uSize lf - 1) * 0.5) * alpha)
             ((real_of_int v - real_of_int (vSize lf - 1) * 0.5) * alpha)
      else view)"

definition blur_view :: "blur \<Rightarrow> real \<Rightarrow> NewImage \<Rightarrow> NewImage" where
  "blur_view LanczosBlur alpha view =
     (if \<bar>alpha\<bar> > 1 then LanczosBlur view \<bar>alpha\<bar> \<bar>alpha\<bar> 0 else view)"

definition view_step ::
  "translate \<Rightarrow> blur \<Rightarrow> LightField \<Rightarrow> int \<Rightarrow> real \<Rightarrow> int \<Rightarrow> int \<Rightarrow>
     NewImage \<times> NewImage \<Rightarrow> error + NewImage \<times> NewImage" where
  "view_step Translate LanczosBlur lf t alpha v u = (\<lambda>(out, view).
     bindE (extract_view lf u v view) (\<lambda>view.
       let view = shift_view Translate lf alpha u v view;
           view = blur_view LanczosBlur alpha view
       in bindE (frame_add out t view) (\<lambda>out. Inr (out, view))))"

definition frame_step ::
  "translate \<Rightarrow> blur \<Rightarrow> LightField \<Rightarrow> int \<Rightarrow> real \<Rightarrow>
     NewImage \<times> NewImage \<Rightarrow> error + NewImage \<times> NewImage" where
  "frame_step Translate LanczosBlur lf t alpha =
     for_loop (vSize lf) (\<lambda>v.
       for_loop (uSize lf) (\<lambda>u. view_step Translate LanczosBlur lf t alpha v u))"

subsection \<open>\<open>LFFocalStack::apply\<close>\<close>

text \<open>
  \<open>None\<close> is a run that never returns, \<open>Some (Inl e)\<close> a run that fails, and
  \<open>Some (Inr out)\<close> a run that returns the image \<open>out\<close>.
\<close>

definition LFFocalStack_apply ::
  "translate \<Rightarrow> blur \<Rightarrow> LightField \<Rightarrow> real \<Rightarrow> real \<Rightarrow> real \<Rightarrow> (error + NewImage) option" where
  "LFFocalStack_apply Translate LanczosBlur lf minAlpha maxAlpha deltaAlpha =
     (if frames (image_lf lf) \<noteq> 1 then Some (Inl Panic)
      else case count_loop minAlpha maxAlpha deltaAlpha 0 of
        None \<Rightarrow> None
      | Some nframes \<Rightarrow>
          let out = new_image (xSize lf) (ySize lf) nframes (channels (image_lf lf));
              view = new_image (xSize lf) (ySize lf) 1 (channels (image_lf lf))
          in case process_loop (frame_step Translate LanczosBlur lf)
                    minAlpha maxAlpha deltaAlpha 0 (out, view) of
               None \<Rightarrow> None
             | Some (Inl e) \<Rightarrow> Some (Inl e)
             | Some (Inr (out, view)) \<Rightarrow>
                 Some (Inr (image_div out (real_of_int (uSize lf * vSize lf)))))"

section \<open>Notions the properties are stated with\<close>

text \<open>
  \<open>alpha_sample minAlpha deltaAlpha k\<close> is the value of \<open>alpha\<close> after \<open>k\<close> additions, and
  \<open>schedule a d t n\<close> the first \<open>n\<close> samples from \<open>a\<close>, each with its frame index from \<open>t\<close>.
  \<open>log_step\<close> is a body for \<open>process_loop\<close> that records the frame index and the
  \<open>alpha\<close> of every iteration. \<open>same_extents\<close> says that two images have one shape, and
  \<open>keeps_extents\<close> that an external operator returns an image of the shape it is given.
  \<open>view_average\<close> is the plain average of all views at one pixel and channel.
  \<open>write_channels\<close> is an image with the channels below \<open>n\<close> of one pixel replaced.
  \<open>marks_only lf px py pz lf'\<close> is the invariant of the loops of the point marker,
  relative to the light field \<open>lf\<close> they start from: \<open>lf'\<close> has the extents of \<open>lf\<close>, and
  an element of \<open>lf'\<close> that differs from \<open>lf\<close>'s lies in the first frame, at the pixel
  projected for its view.
\<close>

definition alpha_sample :: "real \<Rightarrow> real \<Rightarrow> nat \<Rightarrow> real" where
  "alpha_sample minAlpha deltaAlpha k = ((\<lambda>a. float_add a deltaAlpha) ^^ k) minAlpha"

definition schedule :: "real \<Rightarrow> real \<Rightarrow> int \<Rightarrow> nat \<Rightarrow> (int \<times> real) list" where
  "schedule a d t n = map (\<lambda>k. (t + int k, alpha_sample a d k)) [0..<n]"

definition log_step :: "int \<Rightarrow> real \<Rightarrow> (int \<times> real) list \<Rightarrow> error + (int \<times> real) list" where
  "log_step t alpha steps = Inr (steps @ [(t, alpha)])"

definition same_extents :: "NewImage \<Rightarrow> NewImage \<Rightarrow> bool" where
  "same_extents a b \<longleftrightarrow>
     width a = width b \<and> height a = height b \<and> frames a = frames b \<and> channels a = channels b"

definition keeps_extents :: "translate \<Rightarrow> blur \<Rightarrow> bool" where
  "keeps_extents Translate LanczosBlur \<longleftrightarrow>
     (\<forall>im dx dy. same_extents (Translate im dx dy) im) \<and>
     (\<forall>im rx ry rt. same_extents (LanczosBlur im rx ry rt) im)"

definition view_average :: "LightField \<Rightarrow> int \<Rightarrow> int \<Rightarrow> int \<Rightarrow> real" where
  "view_average lf x y c =
     (\<Sum>v = 0..<nat (vSize lf). \<Sum>u = 0..<nat (uSize lf).
        data (image_lf lf) (x * uSize lf + int u, y * vSize lf + int v, 0, c))
     / real_of_int (uSize lf * vSize lf)"

definition write_channels :: "NewImage \<Rightarrow> int \<Rightarrow> int \<Rightarrow> int \<Rightarrow> int \<Rightarrow> (int \<Rightarrow> real) \<Rightarrow> NewImage" where
  "write_channels out x y t n f =
     out\<lparr>data := (\<lambda>(x', y', t', c').
        if x' = x \<and> y' = y \<and> t' = t \<and> 0 \<le> c' \<and> c' < n then f c'
        else data out (x', y', t', c'))\<rparr>"

definition marks_only :: "LightField \<Rightarrow> real \<Rightarrow> real \<Rightarrow> real \<Rightarrow> LightField \<Rightarrow> bool" where
  "marks_only lf px py pz lf' \<longleftrightarrow>
     uSize lf' = uSize lf \<and> vSize lf' = vSize lf \<and> xSize lf' = xSize lf \<and> ySize lf' = ySize lf \<and>
     same_extents (image_lf lf') (image_lf lf) \<and>
     (\<forall>X Y t c. data (image_lf lf') (X, Y, t, c) \<noteq> data (image_lf lf) (X, Y, t, c) \<longrightarrow>
        t = 0 \<and> 0 \<le> c \<and> c < channels (image_lf lf) \<and>
        (\<exists>u v x y. in_lf lf x y u v \<and> LFPoint_project lf px py pz u v = (x, y) \<and>
           X = x * uSize lf + u \<and> Y = y * vSize lf + v))"

text \<open>
  \<open>lf_val\<close> is the element of the light field at a ray and a channel. \<open>view_rows\<close> is the
  view buffer while the view \<open>(u, v)\<close> is copied into it: the rows below \<open>ny\<close> and the
  pixels below \<open>nx\<close> of the row \<open>ny\<close> hold the view. \<open>stack_inv lf n\<close> is the invariant of
  the loops of the focal stack on the output and the view buffer: they keep the extents
  they are allocated with, an output of \<open>n\<close> frames.
\<close>

definition lf_val :: "LightField \<Rightarrow> int \<Rightarrow> int \<Rightarrow> int \<Rightarrow> int \<Rightarrow> int \<Rightarrow> real" where
  "lf_val lf x y u v c = data (image_lf lf) (x * uSize lf + u, y * vSize lf + v, 0, c)"

definition view_rows :: "LightField \<Rightarrow> int \<Rightarrow> int \<Rightarrow> NewImage \<Rightarrow> int \<Rightarrow> int \<Rightarrow> NewImage" where
  "view_rows lf u v view ny nx =
     view\<lparr>data := (\<lambda>(x, y, t, c).
       if t = 0 \<and> 0 \<le> c \<and> c < channels (image_lf lf) \<and> 0 \<le> x \<and> x < xSize lf \<and> 0 \<le> y \<and>
          (y < ny \<or> y = ny \<and> x < nx)
       then lf_val lf x y u v c else data view (x, y, t, c))\<rparr>"

definition stack_inv :: "LightField \<Rightarrow> int \<Rightarrow> NewImage \<times> NewImage \<Rightarrow> bool" where
  "stack_inv lf n s \<longleftrightarrow>
     same_extents (fst s) (new_image (xSize lf) (ySize lf) n (channels (image_lf lf))) \<and>
     same_extents (snd s) (new_image (xSize lf) (ySize lf) 1 (channels (image_lf lf)))"

text \<open>
  \<open>frame_is lf k g\<close> says that the frame \<open>k\<close> of the output holds \<open>g x y c\<close> at every pixel
  and channel of the light field's spatial extents. \<open>view_sum lf nv nu\<close> is the sum of the
  views accumulated when the loops over the views have reached the view \<open>(nu, nv)\<close>: all
  views of the rows below \<open>nv\<close> and the views below \<open>nu\<close> of the row \<open>nv\<close>.
\<close>

definition frame_is :: "LightField \<Rightarrow> int \<Rightarrow> (int \<Rightarrow> int \<Rightarrow> int \<Rightarrow> real) \<Rightarrow> NewImage \<times> NewImage \<Rightarrow> bool" where
  "frame_is lf k g s \<longleftrightarrow>
     (\<forall>x y c. 0 \<le> x \<and> x < xSize lf \<and> 0 \<le> y \<and> y < ySize lf \<and> 0 \<le> c \<and> c < channels (image_lf lf) \<longrightarrow>
        data (fst s) (x, y, k, c) = g x y c)"

definition view_sum :: "LightField \<Rightarrow> nat \<Rightarrow> nat \<Rightarrow> int \<Rightarrow> int \<Rightarrow> int \<Rightarrow> real" where
  "view_sum lf nv nu x y c =
     (\<Sum>v = 0..<nv. \<Sum>u = 0..<nat (uSize lf). lf_val lf x y (int u) (int v) c) +
     (\<Sum>u = 0..<nu. lf_val lf x y (int u) (int nv) c)"

text \<open>
  \<open>warp_value lf warper x y t c\<close> is the value the fast path of the warp reads for the
  output pixel \<open>(x, y, t)\<close> and the channel \<open>c\<close>: the element of the light field at the
  indices \<open>LFWarp_index\<close> computes from the four scaled coordinates of the pixel.
  \<open>warp_filled lf warper nt ny nx\<close> is the invariant of the loops of the warp on the output
  image: it keeps the extents it is allocated with, and the pixels of the frames below
  \<open>nt\<close>, of the rows below \<open>ny\<close> of the frame \<open>nt\<close> and the pixels below \<open>nx\<close> of the row
  \<open>ny\<close> hold their \<open>warp_value\<close>.
\<close>

definition warp_value :: "LightField \<Rightarrow> NewImage \<Rightarrow> int \<Rightarrow> int \<Rightarrow> int \<Rightarrow> int \<Rightarrow> real" where
  "warp_value lf warper x y t c =
     (case LFWarp_index lf
        (float_mul (data warper (x, y, t, 0)) (float_of_int (xSize lf - 1)))
        (float_mul (data warper (x, y, t, 1)) (float_of_int (ySize lf - 1)))
        (float_mul (data warper (x, y, t, 2)) (float_of_int (uSize lf - 1)))
        (float_mul (data warper (x, y, t, 3)) (float_of_int (vSize lf - 1)))
      of (ix, iy, iu, iv) \<Rightarrow> lf_val lf ix iy iu iv c)"

definition warp_filled :: "LightField \<Rightarrow> NewImage \<Rightarrow> int \<Rightarrow> int \<Rightarrow> int \<Rightarrow> NewImage \<Rightarrow> bool" where
  "warp_filled lf warper nt ny nx out \<longleftrightarrow>
     same_extents out (LFWarp_out lf warper) \<and>
     (\<forall>x y t c. 0 \<le> x \<and> x < width warper \<and> 0 \<le> y \<and> y < height warper \<and> 0 \<le> t \<and>
        0 \<le> c \<and> c < channels (image_lf lf) \<and>
        (t < nt \<or> t = nt \<and> (y < ny \<or> y = ny \<and> x < nx)) \<longrightarrow>
        data out (x, y, t, c) = warp_value lf warper x y t c)"

section \<open>Concrete inputs\<close>

text \<open>
  A light field of 2 by 2 views of 2 by 2 pixels, one channel, whose buffer pixel
  \<open>(x, y)\<close> holds \<open>x + 4 * y\<close>; a coordinate map of one pixel; a coordinate map two pixels
  wide; and stand-ins for the external operators that return their argument.
\<close>

definition example_lf :: LightField where
  "example_lf =
     light_field \<lparr>width = 4, height = 4, frames = 1, channels = 1,
                  data = (\<lambda>(x, y, t, c). real_of_int (x + 4 * y))\<rparr> 2 2"

definition example_map :: NewImage where
  "example_map =
     \<lparr>width = 1, height = 1, frames = 1, channels = 4,
      data = (\<lambda>(x, y, t, c). if c = 0 then 1 else if c = 1 then 0 else 1 / 2)\<rparr>"

definition wide_map :: NewImage where
  "wide_map = \<lparr>width = 2, height = 1, frames = 1, channels = 4, data = (\<lambda>p. 0)\<rparr>"

definition no_sampler :: sampler where
  "no_sampler lf lx ly lu lv t c = 0"

definition no_translate :: translate where
  "no_translate im dx dy = im"

definition no_blur :: blur where
  "no_blur im rx ry rt = im"

text \<open>
  A translate operator that blanks the image it is given, which tells a translated view
  from an untranslated one.
\<close>

definition zero_translate :: translate where
  "zero_translate im dx dy = im\<lparr>data := (\<lambda>p. 0)\<rparr>"

text \<open>
  A light field of one view over a row of four pixels, of which the pixel \<open>x\<close> holds \<open>x\<close>,
  with a coordinate map of one pixel whose first value, \<open>13981013 / 16777216\<close>, is the
  binary32 value next below \<open>5/6\<close>; and a light field of one view over a row of six pixels
  that hold 0.
\<close>

definition row_lf :: LightField where
  "row_lf =
     light_field \<lparr>width = 4, height = 1, frames = 1, channels = 1,
                  data = (\<lambda>(x, y, t, c). real_of_int x)\<rparr> 1 1"

definition edge_map :: NewImage where
  "edge_map =
     \<lparr>width = 1, height = 1, frames = 1, channels = 4,
      data = (\<lambda>(x, y, t, c). if c = 0 then 13981013 / 16777216 else 0)\<rparr>"

definition six_lf :: LightField where
  "six_lf = light_field (new_image 6 1 1 1) 1 1"

section \<open>Loops and accessors\<close>

lemma bindE_Inr [simp]: "bindE (Inr a) f = f a"
  by (simp add: bindE_def)

lemma bindE_Inl [simp]: "bindE (Inl e) f = Inl e"
  by (simp add: bindE_def)

lemma bindE_Inr_right [simp]: "bindE m Inr = m"
  by (simp add: bindE_def split: sum.splits)

lemma for_each_append:
  "for_each (xs @ ys) body s = bindE (for_each xs body s) (for_each ys body)"
  by (induction xs arbitrary: s) (auto simp: bindE_def split: sum.splits)

lemma for_each_Nil_fun [simp]: "for_each [] body = Inr"
  by (rule ext) simp

lemma for_each_single [simp]: "for_each [i] body = body i"
  by (rule ext) simp

lemma for_loop_0 [simp]: "n \<le> 0 \<Longrightarrow> for_loop n body s = Inr s"
  by (simp add: for_loop_def)

lemma for_loop_Suc:
  "0 \<le> n \<Longrightarrow> for_loop (n + 1) body s = bindE (for_loop n body s) (body n)"
  by (simp add: for_loop_def nat_add_distrib for_each_append)

lemma for_loop_1: "for_loop 1 body s = body 0 s"
  using for_loop_Suc [of 0 body s] by simp

lemma for_loop_2: "for_loop 2 body s = bindE (body 0 s) (body 1)"
  using for_loop_Suc [of 1 body s] by (simp add: for_loop_1)

lemma for_each_inv:
  assumes "I s"
    and "\<And>i s. i \<in> set xs \<Longrightarrow> I s \<Longrightarrow> \<exists>s'. body i s = Inr s' \<and> I s'"
  shows "\<exists>s'. for_each xs body s = Inr s' \<and> I s'"
  using assms
proof (induction xs arbitrary: s)
  case Nil
  then show ?case by simp
next
  case (Cons i xs)
  from Cons.prems obtain s1 where s1: "body i s = Inr s1" "I s1"
    by (meson list.set_intros(1))
  have "\<exists>s'. for_each xs body s1 = Inr s' \<and> I s'"
    by (rule Cons.IH [OF s1(2)]) (simp add: Cons.prems(2))
  with s1 show ?case by simp
qed

lemma for_loop_inv:
  assumes "I s"
    and "\<And>i s. 0 \<le> i \<Longrightarrow> i < n \<Longrightarrow> I s \<Longrightarrow> \<exists>s'. body i s = Inr s' \<and> I s'"
  shows "\<exists>s'. for_loop n body s = Inr s' \<and> I s'"
  unfolding for_loop_def
  by (rule for_each_inv [where I = I, OF assms(1)]) (use assms(2) in auto)

lemma for_loop_inv_idx:
  assumes "I 0 s"
    and "\<And>i s. i < nat n \<Longrightarrow> I i s \<Longrightarrow> \<exists>s'. body (int i) s = Inr s' \<and> I (Suc i) s'"
  shows "\<exists>s'. for_loop n body s = Inr s' \<and> I (nat n) s'"
proof -
  have "\<exists>s'. for_loop (int k) body s = Inr s' \<and> I k s'" if "k \<le> nat n" for k
    using that
  proof (induction k)
    case 0
    then show ?case using assms(1) by simp
  next
    case (Suc k)
    then obtain s1 where s1: "for_loop (int k) body s = Inr s1" "I k s1" by auto
    from assms(2) [OF _ s1(2)] Suc.prems obtain s2 where "body (int k) s1 = Inr s2" "I (Suc k) s2"
      by auto
    then show ?case
      using for_loop_Suc [of "int k" body s] s1(1) by (simp add: add.commute)
  qed
  from this [of "nat n"] show ?thesis
    by (cases "0 \<le> n") simp_all
qed

lemma for_loop_steps:
  assumes "\<And>i. i < nat n \<Longrightarrow> body (int i) (G i) = Inr (G (Suc i))"
  shows "for_loop n body (G 0) = Inr (G (nat n))"
proof -
  have "for_loop (int k) body (G 0) = Inr (G k)" if "k \<le> nat n" for k
    using that
  proof (induction k)
    case 0
    then show ?case by simp
  next
    case (Suc k)
    then have "for_loop (int k) body (G 0) = Inr (G k)" "body (int k) (G k) = Inr (G (Suc k))"
      using assms [of k] by simp_all
    then show ?case
      using for_loop_Suc [of "int k" body "G 0"] by (simp add: add.commute)
  qed
  from this [of "nat n"] show ?thesis
    by (cases "0 \<le> n") simp_all
qed

section \<open>Rounding\<close>

lemma rne_bounds: "\<lfloor>r\<rfloor> \<le> rne r \<and> rne r \<le> \<lfloor>r\<rfloor> + 1"
  by (simp add: rne_def Let_def)

lemma rne_of_int [simp]: "rne (of_int n) = n"
  by (simp add: rne_def)

lemma rne_0 [simp]: "rne 0 = 0"
  by (simp add: rne_def)

lemma rne_mono:
  assumes "r \<le> r'"
  shows "rne r \<le> rne r'"
proof (cases "\<lfloor>r\<rfloor> = \<lfloor>r'\<rfloor>")
  case True
  then show ?thesis using assms by (auto simp: rne_def Let_def)
next
  case False
  then have "\<lfloor>r\<rfloor> + 1 \<le> \<lfloor>r'\<rfloor>" using floor_mono [OF assms] by simp
  then show ?thesis using rne_bounds [of r] rne_bounds [of r'] by linarith
qed

lemma bitlen_mono: "a \<le> b \<Longrightarrow> bitlen a \<le> bitlen b"
  by (simp add: bitlen_def floorlog_mono nat_mono)

lemma round_mag_upper:
  assumes "0 \<le> y"
  shows "round_mag y \<le> 2 ^ (nat (bitlen \<lfloor>y\<rfloor> - 24) + 24)"
proof -
  define k where "k = nat (bitlen \<lfloor>y\<rfloor> - 24)"
  have "bitlen \<lfloor>y\<rfloor> \<le> int (k + 24)" by (simp add: k_def)
  then have "\<lfloor>y\<rfloor> < 2 ^ (k + 24)"
    using bitlen_le_iff_power [of "\<lfloor>y\<rfloor>" "int (k + 24)"] by (simp add: nat_add_distrib)
  then have "\<lfloor>y\<rfloor> + 1 \<le> 2 ^ (k + 24)" by simp
  then have "real_of_int (\<lfloor>y\<rfloor> + 1) \<le> real_of_int (2 ^ (k + 24))" by (simp only: of_int_le_iff)
  then have "y \<le> 2 ^ (k + 24)" by (simp add: less_eq_real_def) linarith
  then have "y / 2 ^ k \<le> 2 ^ 24" by (simp add: power_add field_simps)
  then have "rne (y / 2 ^ k) \<le> rne (of_int (2 ^ 24))" by (intro rne_mono) simp
  then have "rne (y / 2 ^ k) \<le> 2 ^ 24" by (simp only: rne_of_int)
  then have "real_of_int (rne (y / 2 ^ k)) \<le> 2 ^ 24"
    by (metis of_int_le_iff of_int_numeral of_int_power)
  then have "real_of_int (rne (y / 2 ^ k)) * 2 ^ k \<le> 2 ^ 24 * 2 ^ k"
    by (intro mult_right_mono) simp_all
  then show ?thesis by (simp add: round_mag_def k_def [symmetric] power_add mult.commute)
qed

lemma round_mag_lower:
  assumes "0 < nat (bitlen \<lfloor>y\<rfloor> - 24)"
  shows "2 ^ (nat (bitlen \<lfloor>y\<rfloor> - 24) + 23) \<le> round_mag y"
proof -
  define k where "k = nat (bitlen \<lfloor>y\<rfloor> - 24)"
  have k: "0 < k" using assms by (simp add: k_def)
  then have "int (k + 24) \<le> bitlen \<lfloor>y\<rfloor>" by (simp add: k_def)
  then have "2 ^ (k + 23) \<le> \<lfloor>y\<rfloor>"
    using bitlen_ge_iff_power [of "int (k + 24)" "\<lfloor>y\<rfloor>"]
    by (simp add: nat_add_distrib add.commute)
  then have "real_of_int (2 ^ (k + 23)) \<le> y" by (simp only: le_floor_iff)
  then have "2 ^ (k + 23) \<le> y" by simp
  then have "2 ^ 23 \<le> y / 2 ^ k" by (simp add: power_add field_simps)
  then have "rne (of_int (2 ^ 23)) \<le> rne (y / 2 ^ k)" by (intro rne_mono) simp
  then have "2 ^ 23 \<le> rne (y / 2 ^ k)" by (simp only: rne_of_int)
  then have "2 ^ 23 \<le> real_of_int (rne (y / 2 ^ k))"
    by (metis of_int_le_iff of_int_numeral of_int_power)
  then have "2 ^ 23 * 2 ^ k \<le> real_of_int (rne (y / 2 ^ k)) * 2 ^ k"
    by (intro mult_right_mono) simp_all
  then show ?thesis by (simp add: round_mag_def k_def [symmetric] power_add mult.commute)
qed

lemma round_mag_mono:
  assumes "0 \<le> y" "y \<le> y'"
  shows "round_mag y \<le> round_mag y'"
proof -
  define k where "k = nat (bitlen \<lfloor>y\<rfloor> - 24)"
  define k' where "k' = nat (bitlen \<lfloor>y'\<rfloor> - 24)"
  have kk: "k \<le> k'"
    unfolding k_def k'_def using bitlen_mono [OF floor_mono [OF assms(2)]] by simp
  show ?thesis
  proof (cases "k = k'")
    case True
    have "y / 2 ^ k \<le> y' / 2 ^ k" using assms(2) by (simp add: divide_right_mono)
    then have "rne (y / 2 ^ k) \<le> rne (y' / 2 ^ k)" by (rule rne_mono)
    then have "real_of_int (rne (y / 2 ^ k)) * 2 ^ k \<le> real_of_int (rne (y' / 2 ^ k)) * 2 ^ k"
      by (intro mult_right_mono) simp_all
    then show ?thesis
      using True by (simp add: round_mag_def k_def [symmetric] k'_def [symmetric])
  next
    case False
    then have lt: "k + 1 \<le> k'" "0 < k'" using kk by simp_all
    have "round_mag y \<le> 2 ^ (k + 24)"
      using round_mag_upper [OF assms(1)] by (simp add: k_def)
    also have "(2::real) ^ (k + 24) \<le> 2 ^ (k' + 23)"
      using lt(1) by (intro power_increasing) simp_all
    also have "\<dots> \<le> round_mag y'"
      using round_mag_lower [of y'] lt(2) by (simp add: k'_def)
    finally show ?thesis .
  qed
qed

lemma round_mag_nonneg: "0 \<le> y \<Longrightarrow> 0 \<le> round_mag y"
proof -
  assume "0 \<le> y"
  then have "rne (of_int 0) \<le> rne (y / 2 ^ nat (bitlen \<lfloor>y\<rfloor> - 24))"
    by (intro rne_mono) simp
  then show ?thesis by (simp add: round_mag_def Let_def)
qed

lemma float_round_mono:
  assumes "x \<le> x'"
  shows "float_round x \<le> float_round x'"
proof -
  consider "0 \<le> x" | "x' \<le> 0" | "x < 0" "0 < x'" by linarith
  then show ?thesis
  proof cases
    case 1
    then have "round_mag (\<bar>x\<bar> * 2 ^ 149) \<le> round_mag (\<bar>x'\<bar> * 2 ^ 149)"
      using assms by (intro round_mag_mono) simp_all
    moreover have "0 \<le> round_mag (\<bar>x'\<bar> * 2 ^ 149)" by (intro round_mag_nonneg) simp
    ultimately show ?thesis
      using 1 assms by (cases "x = 0") (simp_all add: float_round_def sgn_if divide_right_mono)
  next
    case 2
    then have "round_mag (\<bar>x'\<bar> * 2 ^ 149) \<le> round_mag (\<bar>x\<bar> * 2 ^ 149)"
      using assms by (intro round_mag_mono) simp_all
    moreover have "0 \<le> round_mag (\<bar>x\<bar> * 2 ^ 149)" by (intro round_mag_nonneg) simp
    ultimately show ?thesis
      using 2 assms by (cases "x' = 0") (simp_all add: float_round_def sgn_if divide_right_mono)
  next
    case 3
    have "0 \<le> round_mag (\<bar>x\<bar> * 2 ^ 149)" "0 \<le> round_mag (\<bar>x'\<bar> * 2 ^ 149)"
      by (intro round_mag_nonneg; simp)+
    then have "float_round x \<le> 0" "0 \<le> float_round x'"
      using 3 by (simp_all add: float_round_def sgn_if)
    then show ?thesis by linarith
  qed
qed

lemma float_round_0: "float_round 0 = 0"
  by (simp add: float_round_def)

text \<open>Values that need no rounding: an integer of at most \<open>p\<close> bits times a power of two.\<close>

lemma round_mag_bits: "round_mag y = round_bits 24 y"
  by (simp add: round_mag_def round_bits_def)

lemma round_bits_exact:
  assumes "0 \<le> N" "N < 2 ^ p"
  shows "round_bits p (real_of_int N * 2 ^ i) = real_of_int N * 2 ^ i"
proof (cases "N = 0")
  case True
  then show ?thesis by (simp add: round_bits_def)
next
  case False
  then have pos: "0 < N" using assms(1) by simp
  define k where "k = nat (bitlen (N * 2 ^ i) - int p)"
  have fl: "\<lfloor>real_of_int N * 2 ^ i\<rfloor> = N * 2 ^ i"
  proof -
    have "real_of_int N * 2 ^ i = real_of_int (N * 2 ^ i)" by simp
    then show ?thesis by (simp only: floor_of_int)
  qed
  have "bitlen N \<le> int p"
    using assms(2) bitlen_le_iff_power [of N "int p"] by simp
  then have ki: "k \<le> i"
    using bitlen_pow2 [OF pos, of i] by (simp add: k_def)
  obtain d where d: "i = d + k" using ki by (metis le_add_diff_inverse2)
  have "real_of_int N * 2 ^ i / 2 ^ k = real_of_int (N * 2 ^ d)"
    by (simp add: d power_add)
  then have "rne (real_of_int N * 2 ^ i / 2 ^ k) = N * 2 ^ d"
    by (simp only: rne_of_int)
  then have "real_of_int (rne (real_of_int N * 2 ^ i / 2 ^ k) * 2 ^ k) =
      real_of_int N * (2 ^ d * 2 ^ k)"
    by simp
  also have "(2::real) ^ d * 2 ^ k = 2 ^ i"
    by (simp add: d power_add)
  finally show ?thesis
    by (simp add: round_bits_def fl k_def [symmetric] Let_def)
qed

lemma double_round_exact:
  assumes "\<bar>N\<bar> < 2 ^ 53"
  shows "double_round (real_of_int N * 2 ^ i / 2 ^ 1074) = real_of_int N * 2 ^ i / 2 ^ 1074"
proof -
  have "\<bar>real_of_int N * 2 ^ i / 2 ^ 1074\<bar> * 2 ^ 1074 = real_of_int \<bar>N\<bar> * 2 ^ i"
    by (simp add: abs_mult)
  moreover have "round_bits 53 (real_of_int \<bar>N\<bar> * 2 ^ i) = real_of_int \<bar>N\<bar> * 2 ^ i"
    using assms by (intro round_bits_exact) simp_all
  moreover have "sgn (real_of_int N * 2 ^ i / 2 ^ 1074) = sgn (real_of_int N)"
    by (simp add: sgn_mult sgn_divide)
  ultimately have "double_round (real_of_int N * 2 ^ i / 2 ^ 1074) =
      sgn (real_of_int N) * (real_of_int \<bar>N\<bar> * 2 ^ i) / 2 ^ 1074"
    by (simp only: double_round_def)
  also have "sgn (real_of_int N) * (real_of_int \<bar>N\<bar> * 2 ^ i) = real_of_int N * 2 ^ i"
    by (simp add: sgn_if)
  finally show ?thesis .
qed

lemma float_round_exact:
  assumes "\<bar>N\<bar> < 2 ^ 24"
  shows "float_round (real_of_int N * 2 ^ i / 2 ^ 149) = real_of_int N * 2 ^ i / 2 ^ 149"
proof -
  have "\<bar>real_of_int N * 2 ^ i / 2 ^ 149\<bar> * 2 ^ 149 = real_of_int \<bar>N\<bar> * 2 ^ i"
    by (simp add: abs_mult)
  moreover have "round_mag (real_of_int \<bar>N\<bar> * 2 ^ i) = real_of_int \<bar>N\<bar> * 2 ^ i"
    unfolding round_mag_bits using assms by (intro round_bits_exact) simp_all
  moreover have "sgn (real_of_int N * 2 ^ i / 2 ^ 149) = sgn (real_of_int N)"
    by (simp add: sgn_mult sgn_divide)
  ultimately have "float_round (real_of_int N * 2 ^ i / 2 ^ 149) =
      sgn (real_of_int N) * (real_of_int \<bar>N\<bar> * 2 ^ i) / 2 ^ 149"
    by (simp only: float_round_def)
  also have "sgn (real_of_int N) * (real_of_int \<bar>N\<bar> * 2 ^ i) = real_of_int N * 2 ^ i"
    by (simp add: sgn_if)
  finally show ?thesis .
qed

text \<open>Dyadic fractions and integers of few bits.\<close>

lemma double_round_dyadic:
  assumes "\<bar>N\<bar> < 2 ^ 53" "j \<le> 1074"
  shows "double_round (real_of_int N / 2 ^ j) = real_of_int N / 2 ^ j"
proof -
  have "real_of_int N * 2 ^ (1074 - j) / 2 ^ 1074 = real_of_int N / 2 ^ j"
    using assms(2) by (simp add: power_diff field_simps)
  then show ?thesis using double_round_exact [OF assms(1), of "1074 - j"] by simp
qed

lemma float_round_dyadic:
  assumes "\<bar>N\<bar> < 2 ^ 24" "j \<le> 149"
  shows "float_round (real_of_int N / 2 ^ j) = real_of_int N / 2 ^ j"
proof -
  have "real_of_int N * 2 ^ (149 - j) / 2 ^ 149 = real_of_int N / 2 ^ j"
    using assms(2) by (simp add: power_diff field_simps)
  then show ?thesis using float_round_exact [OF assms(1), of "149 - j"] by simp
qed

lemma double_round_int:
  assumes "\<bar>N\<bar> < 2 ^ 53"
  shows "double_round (real_of_int N) = real_of_int N"
  using double_round_dyadic [OF assms, of 0] by simp

lemma float_round_int:
  assumes "\<bar>N\<bar> < 2 ^ 24"
  shows "float_round (real_of_int N) = real_of_int N"
  using float_round_dyadic [OF assms, of 0] by simp

text \<open>Rounding to \<open>p\<close> bits is monotone.\<close>

lemma rne_scaled_le:
  assumes "0 \<le> y"
  shows "rne (y / 2 ^ nat (bitlen \<lfloor>y\<rfloor> - int p)) \<le> 2 ^ p"
proof -
  define k where "k = nat (bitlen \<lfloor>y\<rfloor> - int p)"
  have "bitlen \<lfloor>y\<rfloor> \<le> int (k + p)" by (simp add: k_def)
  then have "\<lfloor>y\<rfloor> < 2 ^ (k + p)"
    using bitlen_le_iff_power [of "\<lfloor>y\<rfloor>" "int (k + p)"] by (simp add: nat_add_distrib)
  then have "\<lfloor>y\<rfloor> + 1 \<le> 2 ^ (k + p)" by simp
  then have "real_of_int (\<lfloor>y\<rfloor> + 1) \<le> real_of_int (2 ^ (k + p))" by (simp only: of_int_le_iff)
  then have "y \<le> 2 ^ (k + p)" by (simp add: less_eq_real_def) linarith
  then have "y / 2 ^ k \<le> 2 ^ p" by (simp add: power_add field_simps)
  then have "rne (y / 2 ^ k) \<le> rne (of_int (2 ^ p))" by (intro rne_mono) simp
  then show ?thesis by (simp only: rne_of_int k_def)
qed

lemma round_bits_upper:
  assumes "0 \<le> y"
  shows "round_bits p y \<le> 2 ^ (nat (bitlen \<lfloor>y\<rfloor> - int p) + p)"
proof -
  define k where "k = nat (bitlen \<lfloor>y\<rfloor> - int p)"
  have "rne (y / 2 ^ k) \<le> 2 ^ p"
    unfolding k_def by (rule rne_scaled_le [OF assms])
  then have "real_of_int (rne (y / 2 ^ k)) \<le> real_of_int (2 ^ p)" by (simp only: of_int_le_iff)
  then have "real_of_int (rne (y / 2 ^ k)) \<le> 2 ^ p" by simp
  then have "real_of_int (rne (y / 2 ^ k)) * 2 ^ k \<le> 2 ^ p * 2 ^ k"
    by (intro mult_right_mono) simp_all
  then show ?thesis by (simp add: round_bits_def k_def [symmetric] power_add mult.commute)
qed

lemma round_bits_lower:
  assumes "0 < nat (bitlen \<lfloor>y\<rfloor> - int (Suc q))"
  shows "2 ^ (nat (bitlen \<lfloor>y\<rfloor> - int (Suc q)) + q) \<le> round_bits (Suc q) y"
proof -
  define k where "k = nat (bitlen \<lfloor>y\<rfloor> - int (Suc q))"
  have k: "0 < k" using assms by (simp add: k_def)
  then have "int (k + Suc q) \<le> bitlen \<lfloor>y\<rfloor>" by (simp add: k_def)
  then have "2 ^ (k + q) \<le> \<lfloor>y\<rfloor>"
    using bitlen_ge_iff_power [of "int (k + Suc q)" "\<lfloor>y\<rfloor>"]
    by (simp add: nat_add_distrib add.commute)
  then have "real_of_int (2 ^ (k + q)) \<le> y" by (simp only: le_floor_iff)
  then have "2 ^ (k + q) \<le> y" by simp
  then have "2 ^ q \<le> y / 2 ^ k" by (simp add: power_add field_simps)
  then have "rne (of_int (2 ^ q)) \<le> rne (y / 2 ^ k)" by (intro rne_mono) simp
  then have "2 ^ q \<le> rne (y / 2 ^ k)" by (simp only: rne_of_int)
  then have "real_of_int (2 ^ q) \<le> real_of_int (rne (y / 2 ^ k))" by (simp only: of_int_le_iff)
  then have "2 ^ q \<le> real_of_int (rne (y / 2 ^ k))" by simp
  then have "2 ^ q * 2 ^ k \<le> real_of_int (rne (y / 2 ^ k)) * 2 ^ k"
    by (intro mult_right_mono) simp_all
  then show ?thesis
    by (simp add: round_bits_def k_def [symmetric] power_add mult.commute del: of_nat_Suc)
qed

lemma round_bits_mono:
  assumes "0 \<le> y" "y \<le> y'"
  shows "round_bits (Suc q) y \<le> round_bits (Suc q) y'"
proof -
  define k where "k = nat (bitlen \<lfloor>y\<rfloor> - int (Suc q))"
  define k' where "k' = nat (bitlen \<lfloor>y'\<rfloor> - int (Suc q))"
  have kk: "k \<le> k'"
    unfolding k_def k'_def using bitlen_mono [OF floor_mono [OF assms(2)]] by simp
  show ?thesis
  proof (cases "k = k'")
    case True
    have "y / 2 ^ k \<le> y' / 2 ^ k" using assms(2) by (simp add: divide_right_mono)
    then have "rne (y / 2 ^ k) \<le> rne (y' / 2 ^ k)" by (rule rne_mono)
    then have "real_of_int (rne (y / 2 ^ k)) * 2 ^ k \<le> real_of_int (rne (y' / 2 ^ k)) * 2 ^ k"
      by (intro mult_right_mono) simp_all
    then show ?thesis
      using True by (simp add: round_bits_def k_def [symmetric] k'_def [symmetric] del: of_nat_Suc)
  next
    case False
    then have lt: "k + 1 \<le> k'" "0 < k'" using kk by simp_all
    have "round_bits (Suc q) y \<le> 2 ^ (k + Suc q)"
      using round_bits_upper [OF assms(1), of "Suc q"] by (simp add: k_def del: of_nat_Suc)
    also have "(2::real) ^ (k + Suc q) \<le> 2 ^ (k' + q)"
      using lt(1) by (intro power_increasing) simp_all
    also have "\<dots> \<le> round_bits (Suc q) y'"
      using round_bits_lower [of y' q] lt(2) by (simp add: k'_def del: of_nat_Suc)
    finally show ?thesis .
  qed
qed

lemma round_bits_nonneg: "0 \<le> y \<Longrightarrow> 0 \<le> round_bits p y"
proof -
  assume "0 \<le> y"
  then have "rne (of_int 0) \<le> rne (y / 2 ^ nat (bitlen \<lfloor>y\<rfloor> - int p))"
    by (intro rne_mono) simp
  then show ?thesis by (simp add: round_bits_def Let_def)
qed

lemma double_round_mono:
  assumes "x \<le> x'"
  shows "double_round x \<le> double_round x'"
proof -
  have b: "round_bits 53 = round_bits (Suc 52)" by simp
  consider "0 \<le> x" | "x' \<le> 0" | "x < 0" "0 < x'" by linarith
  then show ?thesis
  proof cases
    case 1
    then have "round_bits 53 (\<bar>x\<bar> * 2 ^ 1074) \<le> round_bits 53 (\<bar>x'\<bar> * 2 ^ 1074)"
      unfolding b using assms by (intro round_bits_mono) simp_all
    moreover have "0 \<le> round_bits 53 (\<bar>x'\<bar> * 2 ^ 1074)" by (intro round_bits_nonneg) simp
    ultimately show ?thesis
      using 1 assms by (cases "x = 0") (simp_all add: double_round_def sgn_if divide_right_mono)
  next
    case 2
    then have "round_bits 53 (\<bar>x'\<bar> * 2 ^ 1074) \<le> round_bits 53 (\<bar>x\<bar> * 2 ^ 1074)"
      unfolding b using assms by (intro round_bits_mono) simp_all
    moreover have "0 \<le> round_bits 53 (\<bar>x\<bar> * 2 ^ 1074)" by (intro round_bits_nonneg) simp
    ultimately show ?thesis
      using 2 assms by (cases "x' = 0") (simp_all add: double_round_def sgn_if divide_right_mono)
  next
    case 3
    have "0 \<le> round_bits 53 (\<bar>x\<bar> * 2 ^ 1074)" "0 \<le> round_bits 53 (\<bar>x'\<bar> * 2 ^ 1074)"
      by (intro round_bits_nonneg; simp)+
    then have "double_round x \<le> 0" "0 \<le> double_round x'"
      using 3 by (simp_all add: double_round_def sgn_if)
    then show ?thesis by linarith
  qed
qed

text \<open>A binary32 value is an integer of at most 24 bits times a power of two.\<close>

lemma float_round_form:
  obtains M :: int and e :: nat where
    "\<bar>M\<bar> \<le> 2 ^ 24" "float_round x = real_of_int M * 2 ^ e / 2 ^ 149"
proof -
  define y where "y = \<bar>x\<bar> * 2 ^ 149"
  define e where "e = nat (bitlen \<lfloor>y\<rfloor> - 24)"
  define m where "m = rne (y / 2 ^ e)"
  have y0: "0 \<le> y" by (simp add: y_def)
  have "m \<le> 2 ^ 24"
    unfolding m_def e_def using rne_scaled_le [OF y0, of 24] by simp
  moreover have "0 \<le> m"
  proof -
    have "rne (of_int 0) \<le> rne (y / 2 ^ e)" using y0 by (intro rne_mono) simp
    then show ?thesis by (simp add: m_def)
  qed
  ultimately have "\<bar>m\<bar> \<le> 2 ^ 24" by simp
  define M where "M = (if x < 0 then - m else m)"
  have M: "\<bar>M\<bar> \<le> 2 ^ 24" using \<open>\<bar>m\<bar> \<le> 2 ^ 24\<close> by (simp add: M_def)
  have rm: "round_mag y = real_of_int m * 2 ^ e"
    by (simp add: round_mag_def e_def [symmetric] m_def Let_def)
  have "float_round x = real_of_int M * 2 ^ e / 2 ^ 149"
  proof (cases "x = 0")
    case True
    then have "y = 0" by (simp add: y_def)
    then have "m = 0" by (simp add: m_def)
    then show ?thesis using True by (simp add: float_round_def M_def)
  next
    case False
    have "float_round x = sgn x * round_mag y / 2 ^ 149"
      by (simp only: float_round_def y_def)
    then show ?thesis
      using False by (simp add: rm M_def sgn_if)
  qed
  with M show ?thesis by (rule that)
qed

text \<open>
  The conversion \<open>(int)(c + 0.5)\<close> of a binary32 value \<open>c\<close>: it is \<open>round c\<close> when \<open>c\<close> is at least
  \<open>-1/2\<close> and the result fits an \<open>int\<close>.
\<close>

lemma c_int_half_exact:
  assumes "- 1 / 2 \<le> c" "c + 1 / 2 < 2147483648" "double_round (c + 1 / 2) = c + 1 / 2"
  shows "c_int (double_add c (1 / 2)) = round c"
  using assms by (simp add: double_add_def c_int_def round_def)

lemma c_int_half:
  assumes lo: "- 1 / 2 \<le> float_round x" and hi: "float_round x + 1 / 2 < 2147483648"
  shows "c_int (double_add (float_round x) (1 / 2)) = round (float_round x)"
proof -
  define c where "c = float_round x"
  obtain M :: int and e :: nat where M: "\<bar>M\<bar> \<le> 2 ^ 24" and c: "c = real_of_int M * 2 ^ e / 2 ^ 149"
    unfolding c_def by (rule float_round_form)
  have lo': "- 1 / 2 \<le> c" and hi': "c + 1 / 2 < 2147483648"
    using lo hi by (simp_all add: c_def)
  consider "e < 96" | "96 \<le> e" "e \<le> 148" | "149 \<le> e" by linarith
  then have "c_int (double_add c (1 / 2)) = round c"
  proof cases
    case 1
    have "\<bar>c\<bar> = real_of_int \<bar>M\<bar> * 2 ^ e / 2 ^ 149"
      by (simp add: c abs_mult)
    also have "\<dots> \<le> 2 ^ 24 * 2 ^ 95 / 2 ^ 149"
    proof -
      have "real_of_int \<bar>M\<bar> \<le> 2 ^ 24"
        using M by (metis of_int_le_iff of_int_numeral of_int_power)
      moreover have "(2::real) ^ e \<le> 2 ^ 95"
        using 1 by (intro power_increasing) simp_all
      ultimately have "real_of_int \<bar>M\<bar> * 2 ^ e \<le> 2 ^ 24 * 2 ^ 95"
        by (intro mult_mono) simp_all
      then show ?thesis by (simp add: divide_right_mono)
    qed
    also have "\<dots> \<le> 1 / 4" by simp
    finally have small: "\<bar>c\<bar> \<le> 1 / 4" .
    then have r: "1 / 4 \<le> c + 1 / 2" "c + 1 / 2 \<le> 3 / 4" by linarith+
    have "double_round (1 / 4) \<le> double_round (c + 1 / 2)"
         "double_round (c + 1 / 2) \<le> double_round (3 / 4)"
      using r by (intro double_round_mono; simp)+
    moreover have "double_round (1 / 4) = 1 / 4"
      using double_round_dyadic [of 1 2] by simp
    moreover have "double_round (3 / 4) = 3 / 4"
      using double_round_dyadic [of 3 2] by simp
    ultimately have d: "1 / 4 \<le> double_add c (1 / 2)" "double_add c (1 / 2) \<le> 3 / 4"
      by (simp_all add: double_add_def)
    then have "\<lfloor>double_add c (1 / 2)\<rfloor> = 0" by (intro floor_unique) simp_all
    then have "c_int (double_add c (1 / 2)) = 0"
      using d by (simp add: c_int_def)
    moreover have "round c = 0"
      unfolding round_def using r by (intro floor_unique) simp_all
    ultimately show ?thesis by simp
  next
    case 2
    define P :: int where "P = 2 ^ (148 - e)"
    define N where "N = M + P"
    have "P \<le> 2 ^ 52"
      unfolding P_def using 2 by (intro power_increasing) simp_all
    moreover have "0 \<le> P" by (simp add: P_def)
    ultimately have N: "\<bar>N\<bar> < 2 ^ 53" using M by (simp add: N_def)
    have p1: "(2::real) ^ (148 - e) * 2 ^ e = 2 ^ 148"
      using 2 by (simp add: power_add [symmetric])
    have p2: "(2::real) ^ (e + 925) / 2 ^ 1074 = 2 ^ e / 2 ^ 149"
      by (simp add: power_add)
    have "real_of_int N * 2 ^ (e + 925) / 2 ^ 1074 = real_of_int N * (2 ^ e / 2 ^ 149)"
      using p2 by simp
    also have "\<dots> = real_of_int M * 2 ^ e / 2 ^ 149 + (2 ^ (148 - e) * 2 ^ e) / 2 ^ 149"
      by (simp add: N_def P_def algebra_simps add_divide_distrib)
    also have "\<dots> = c + 1 / 2"
      by (simp only: p1 c) simp
    finally have eq: "real_of_int N * 2 ^ (e + 925) / 2 ^ 1074 = c + 1 / 2" .
    have "double_round (c + 1 / 2) = c + 1 / 2"
      using double_round_exact [OF N, of "e + 925"] by (simp only: eq)
    then show ?thesis by (rule c_int_half_exact [OF lo' hi'])
  next
    case 3
    then obtain d where d: "e = d + 149" by (metis le_add_diff_inverse2)
    define K where "K = M * 2 ^ d"
    have cK: "c = real_of_int K" by (simp add: c d K_def power_add)
    have K: "0 \<le> K" "K < 2147483648"
      using lo' hi' unfolding cK by linarith+
    have eq: "real_of_int (2 * K + 1) / 2 ^ 1 = c + 1 / 2"
      by (simp add: cK add_divide_distrib)
    have "double_round (real_of_int (2 * K + 1) / 2 ^ 1) = real_of_int (2 * K + 1) / 2 ^ 1"
      using K by (intro double_round_dyadic) simp_all
    then have "double_round (c + 1 / 2) = c + 1 / 2" by (simp only: eq)
    then show ?thesis by (rule c_int_half_exact [OF lo' hi'])
  qed
  then show ?thesis by (simp add: c_def)
qed

lemma c_int_half_large:
  assumes "2147483648 \<le> c + 1 / 2"
  shows "c_int (double_add c (1 / 2)) = - 2147483648"
proof -
  have "double_round 2147483648 \<le> double_round (c + 1 / 2)"
    using assms by (rule double_round_mono)
  moreover have "double_round 2147483648 = 2147483648"
    using double_round_int [of 2147483648] by simp
  ultimately show ?thesis by (simp add: double_add_def c_int_def)
qed

lemma c_int_half_negative:
  assumes "c \<le> - 3 / 2"
  shows "c_int (double_add c (1 / 2)) < 0"
proof -
  have "double_round (c + 1 / 2) \<le> double_round (- 1)"
    using assms by (intro double_round_mono) simp
  moreover have "double_round (- 1) = - 1"
    using double_round_int [of "- 1"] by simp
  ultimately have "double_add c (1 / 2) \<le> - 1" by (simp add: double_add_def)
  then have "\<lceil>double_add c (1 / 2)\<rceil> \<le> - 1" by (simp add: ceiling_le_iff)
  then show ?thesis using \<open>double_add c (1 / 2) \<le> - 1\<close> by (simp add: c_int_def)
qed

text \<open>Values the examples below compute with.\<close>

lemma double_round_values:
  "double_round (1 / 2) = 1 / 2" "double_round (- (1 / 2)) = - (1 / 2)"
  "double_round 1 = 1" "double_round (3 / 2) = 3 / 2"
  "double_round (- (1 / 4)) = - (1 / 4)" "double_round (13 / 4) = 13 / 4"
  "double_round (- 5) = - 5" "double_round (2001 / 2) = 2001 / 2"
  "double_round (5 / 4) = 5 / 4" "double_round (6000000001 / 2) = 6000000001 / 2"
  "double_round 3 = 3"
  using double_round_dyadic [of 1 1] double_round_dyadic [of "- 1" 1]
    double_round_dyadic [of 1 0] double_round_dyadic [of 3 1]
    double_round_dyadic [of "- 1" 2] double_round_dyadic [of 13 2]
    double_round_dyadic [of "- 5" 0] double_round_dyadic [of 2001 1]
    double_round_dyadic [of 5 2] double_round_dyadic [of 6000000001 1]
    double_round_dyadic [of 3 0]
  by simp_all

lemma float_round_values:
  "float_round (1 / 2) = 1 / 2" "float_round (- (1 / 2)) = - (1 / 2)"
  "float_round (7 / 8) = 7 / 8" "float_round (- (7 / 8)) = - (7 / 8)"
  "float_round (- (3 / 8)) = - (3 / 8)" "float_round (11 / 8) = 11 / 8"
  "float_round 1 = 1" "float_round 2 = 2" "float_round 3 = 3" "float_round 6 = 6"
  "float_round (- (3 / 4)) = - (3 / 4)" "float_round (11 / 4) = 11 / 4"
  using float_round_dyadic [of 1 1] float_round_dyadic [of "- 1" 1]
    float_round_dyadic [of 7 3] float_round_dyadic [of "- 7" 3]
    float_round_dyadic [of "- 3" 3] float_round_dyadic [of 11 3]
    float_round_dyadic [of 1 0] float_round_dyadic [of 2 0] float_round_dyadic [of 3 0]
    float_round_dyadic [of 6 0]
    float_round_dyadic [of "- 3" 2] float_round_dyadic [of 11 2]
  by simp_all

lemma double_round_0: "double_round 0 = 0"
  by (simp add: double_round_def)

lemma float_round_point: "float_round (13981013 / 33554432) = 13981013 / 33554432"
  using float_round_dyadic [of 13981013 25] by simp

text \<open>
  A product that binary32 rounds up to a tie: \<open>41943039 / 16777216\<close>, which is
  \<open>3 * 13981013 / 16777216\<close> and \<open>6 * 13981013 / 33554432\<close>, lies below \<open>5/2\<close> and needs 26
  bits.
\<close>

lemma float_round_tie: "float_round (41943039 / 16777216) = 5 / 2"
  by code_simp

text \<open>
  The extents up to which the conversion of \<open>n - 1\<close> to \<open>float\<close> stays below \<open>2 ^ 31\<close>.
\<close>

lemma float_round_top: "float_round 2147483583 = 2147483520"
  by code_simp

lemma float_round_below_top: "float_round 2147483520 = 2147483520"
  using float_round_exact [of 16777215 156] by simp

lemma float_scaled_range:
  assumes "0 \<le> s" "s \<le> 1" "1 \<le> n" "n \<le> 2147483584"
  shows "0 \<le> float_mul s (float_of_int (n - 1))"
    and "float_mul s (float_of_int (n - 1)) \<le> 2147483520"
proof -
  define f where "f = float_of_int (n - 1)"
  have "float_round 0 \<le> float_round (real_of_int (n - 1))"
    using assms(3) by (intro float_round_mono) simp
  then have f0: "0 \<le> f" by (simp add: f_def float_of_int_def float_round_0)
  have "float_round (real_of_int (n - 1)) \<le> float_round 2147483583"
    using assms(4) by (intro float_round_mono) simp
  then have f1: "f \<le> 2147483520" by (simp add: f_def float_of_int_def float_round_top)
  have "0 \<le> s * f" using assms(1) f0 by simp
  then have "float_round 0 \<le> float_round (s * f)" by (rule float_round_mono)
  then show "0 \<le> float_mul s (float_of_int (n - 1))"
    by (simp add: float_mul_def f_def float_round_0)
  have "s * f \<le> 1 * f" using assms(2) f0 by (intro mult_right_mono) simp_all
  then have "s * f \<le> 2147483520" using f1 by simp
  then have "float_round (s * f) \<le> float_round 2147483520" by (rule float_round_mono)
  then show "float_mul s (float_of_int (n - 1)) \<le> 2147483520"
    by (simp add: float_mul_def f_def float_round_below_top)
qed

lemma c_int_scaled:
  assumes "0 \<le> s" "s \<le> 1" "1 \<le> n" "n \<le> 2147483584"
  shows "c_int (double_add (float_mul s (float_of_int (n - 1))) (1 / 2)) =
         round (float_mul s (float_of_int (n - 1)))"
  unfolding float_mul_def
  using float_scaled_range [OF assms]
  by (intro c_int_half) (simp_all add: float_mul_def)

section \<open>The warp resampler: proofs\<close>

lemma clamp_range: "lo \<le> hi \<Longrightarrow> lo \<le> clamp a lo hi \<and> clamp a lo hi \<le> hi"
  by (simp add: clamp_def)

lemma LFWarp_index_in_lf:
  assumes "0 < xSize lf" "0 < ySize lf" "0 < uSize lf" "0 < vSize lf"
    and "LFWarp_index lf lx ly lu lv = (ix, iy, iu, iv)"
  shows "in_lf lf ix iy iu iv"
  using assms by (auto simp: LFWarp_index_def in_lf_def clamp_def Let_def)

lemma lf_coords_in_image:
  assumes "lf_wf lf" "in_lf lf x y u v" "0 \<le> c" "c < channels (image_lf lf)"
  shows "in_image (image_lf lf) (x * uSize lf + u) (y * vSize lf + v) 0 c"
proof -
  have "x * uSize lf + u < xSize lf * uSize lf"
  proof -
    have "x + 1 \<le> xSize lf" using assms(2) by (simp add: in_lf_def)
    then have "(x + 1) * uSize lf \<le> xSize lf * uSize lf"
      using assms(1) by (simp add: lf_wf_def mult_right_mono)
    then show ?thesis using assms(2) by (simp add: in_lf_def algebra_simps)
  qed
  moreover have "y * vSize lf + v < ySize lf * vSize lf"
  proof -
    have "y + 1 \<le> ySize lf" using assms(2) by (simp add: in_lf_def)
    then have "(y + 1) * vSize lf \<le> ySize lf * vSize lf"
      using assms(1) by (simp add: lf_wf_def mult_right_mono)
    then show ?thesis using assms(2) by (simp add: in_lf_def algebra_simps)
  qed
  ultimately show ?thesis
    using assms by (simp add: in_image_def lf_wf_def in_lf_def)
qed

lemma lf_get_ok:
  assumes "lf_wf lf" "in_lf lf x y u v" "0 \<le> c" "c < channels (image_lf lf)"
  shows "lf_get lf x y u v c = Inr (data (image_lf lf) (x * uSize lf + u, y * vSize lf + v, 0, c))"
  using lf_coords_in_image [OF assms] assms(2) by (simp add: lf_get_def im_get_def)

lemma LFWarp_index_lookup:
  assumes "lf_wf lf" "0 < xSize lf" "0 < ySize lf"
    and "LFWarp_index lf lx ly lu lv = (ix, iy, iu, iv)"
    and "0 \<le> c" "c < channels (image_lf lf)"
  shows "in_lf lf ix iy iu iv \<and>
         in_image (image_lf lf) (ix * uSize lf + iu) (iy * vSize lf + iv) 0 c \<and>
         lf_get lf ix iy iu iv c =
           Inr (data (image_lf lf) (ix * uSize lf + iu, iy * vSize lf + iv, 0, c))"
proof -
  have inlf: "in_lf lf ix iy iu iv"
    using assms by (intro LFWarp_index_in_lf [of lf lx ly lu lv]) (simp_all add: lf_wf_def)
  show ?thesis
    using inlf lf_coords_in_image [OF assms(1) inlf assms(5,6)] lf_get_ok [OF assms(1) inlf assms(5,6)]
    by simp
qed

text \<open>
  Claim C9. In fast mode the warp reads the light field in bounds whatever the coordinate
  map holds: for all scaled coordinates \<open>lx\<close>, \<open>ly\<close>, \<open>lu\<close>, \<open>lv\<close>, negative or
  beyond the extents, the four indices the fast path computes lie inside the extents of a
  non-empty light field, the buffer pixel they address lies inside the buffer, and the
  lookup of every channel returns the stored element.
\<close>

theorem LFWarp_quick_reads_in_bounds:
  assumes "lf_wf lf" "0 < xSize lf" "0 < ySize lf"
    and "LFWarp_index lf lx ly lu lv = (ix, iy, iu, iv)"
    and "0 \<le> c" "c < channels (image_lf lf)"
  shows "in_lf lf ix iy iu iv \<and>
         in_image (image_lf lf) (ix * uSize lf + iu) (iy * vSize lf + iv) 0 c \<and>
         lf_get lf ix iy iu iv c =
           Inr (data (image_lf lf) (ix * uSize lf + iu, iy * vSize lf + iv, 0, c))"
  using assms by (rule LFWarp_index_lookup)

theorem LFWarp_quick_reads_in_bounds_witness:
  "LFWarp_index example_lf (-11 / 2) 1000 (3 / 4) 3000000000 = (0, 1, 1, 0) \<and>
   in_lf example_lf 0 1 1 0 \<and> in_image (image_lf example_lf) 1 2 0 0 \<and>
   lf_get example_lf 0 1 1 0 0 = Inr 9"
  using LFWarp_quick_reads_in_bounds [of example_lf "-11 / 2" 1000 "3 / 4" 3000000000 0 1 1 0 0]
  by (simp add: example_lf_def light_field_def lf_wf_def LFWarp_index_def c_int_def clamp_def
        double_add_def double_round_values)

lemma write_channels_0: "n \<le> 0 \<Longrightarrow> write_channels out x y t n f = out"
  by (simp add: write_channels_def fun_eq_iff)

lemma channel_loop_writes:
  assumes "0 \<le> x" "x < width out" "0 \<le> y" "y < height out" "0 \<le> t" "t < frames out"
    and "int n \<le> channels out"
    and "\<And>c. 0 \<le> c \<Longrightarrow> c < int n \<Longrightarrow> g c = Inr (f c)"
  shows "for_loop (int n) (\<lambda>c out. bindE (g c) (im_set out x y t c)) out =
         Inr (write_channels out x y t (int n) f)"
  using assms(7,8)
proof (induction n)
  case 0
  then show ?case by (simp add: write_channels_0)
next
  case (Suc n)
  have IH: "for_loop (int n) (\<lambda>c out. bindE (g c) (im_set out x y t c)) out =
         Inr (write_channels out x y t (int n) f)"
    using Suc by simp
  have g: "g (int n) = Inr (f (int n))" using Suc.prems by simp
  have inr: "in_image (write_channels out x y t (int n) f) x y t (int n)"
    using assms(1-6) Suc.prems(1) by (simp add: in_image_def write_channels_def)
  have upd: "(write_channels out x y t (int n) f)
               \<lparr>data := (data (write_channels out x y t (int n) f))((x, y, t, int n) := f (int n))\<rparr>
             = write_channels out x y t (int n + 1) f"
  proof -
    have "(\<lambda>(x', y', t', c').
               if x' = x \<and> y' = y \<and> t' = t \<and> 0 \<le> c' \<and> c' < int n then f c'
               else data out (x', y', t', c'))
           ((x, y, t, int n) := f (int n)) =
          (\<lambda>(x', y', t', c').
              if x' = x \<and> y' = y \<and> t' = t \<and> 0 \<le> c' \<and> c' < int n + 1 then f c'
              else data out (x', y', t', c'))"
      by (auto simp: fun_eq_iff)
    then show ?thesis by (simp add: write_channels_def)
  qed
  have "for_loop (int (Suc n)) (\<lambda>c out. bindE (g c) (im_set out x y t c)) out =
        bindE (for_loop (int n) (\<lambda>c out. bindE (g c) (im_set out x y t c)) out)
          (\<lambda>out. bindE (g (int n)) (im_set out x y t (int n)))"
    using for_loop_Suc [of "int n" "\<lambda>c out. bindE (g c) (im_set out x y t c)" out]
    by (simp add: add.commute)
  also have "\<dots> = Inr (write_channels out x y t (int n + 1) f)"
    using inr upd by (simp add: IH g im_set_def)
  finally show ?case by (simp add: add.commute)
qed

lemma example_lf_wf: "lf_wf example_lf"
  by (simp add: example_lf_def light_field_def lf_wf_def)

lemma LFWarp_pixel_quick:
  assumes wf: "lf_wf lf" "0 < xSize lf" "0 < ySize lf"
    and w: "in_image warper x y t 0" "4 \<le> channels warper"
    and o: "x < width out" "y < height out" "t < frames out"
      "channels (image_lf lf) \<le> channels out"
  shows "LFWarp_pixel sample4D lf warper True t y x out =
      Inr (write_channels out x y t (channels (image_lf lf)) (warp_value lf warper x y t))"
proof -
  define lx where "lx = float_mul (data warper (x, y, t, 0)) (float_of_int (xSize lf - 1))"
  define ly where "ly = float_mul (data warper (x, y, t, 1)) (float_of_int (ySize lf - 1))"
  define lu where "lu = float_mul (data warper (x, y, t, 2)) (float_of_int (uSize lf - 1))"
  define lv where "lv = float_mul (data warper (x, y, t, 3)) (float_of_int (vSize lf - 1))"
  obtain ix iy iu iv where idx: "LFWarp_index lf lx ly lu lv = (ix, iy, iu, iv)"
    by (cases "LFWarp_index lf lx ly lu lv") blast
  obtain n where n: "channels (image_lf lf) = int n"
    using wf(1) by (auto simp: lf_wf_def elim: nonneg_int_cases)
  have reads: "lf_get lf ix iy iu iv c = Inr (lf_val lf ix iy iu iv c)"
    if "0 \<le> c" "c < int n" for c
    using LFWarp_index_lookup [OF wf idx that(1)] that(2) n by (simp add: lf_val_def)
  have wget: "im_get warper x y t 0 = Inr (data warper (x, y, t, 0))"
       "im_get warper x y t 1 = Inr (data warper (x, y, t, 1))"
       "im_get warper x y t 2 = Inr (data warper (x, y, t, 2))"
       "im_get warper x y t 3 = Inr (data warper (x, y, t, 3))"
    using w by (simp_all add: im_get_def in_image_def)
  have loop: "for_loop (int n)
          (\<lambda>c out. bindE (lf_get lf ix iy iu iv c) (im_set out x y t c)) out =
        Inr (write_channels out x y t (int n) (lf_val lf ix iy iu iv))"
    using o n w(1)
    by (intro channel_loop_writes reads) (simp_all add: in_image_def)
  have val: "warp_value lf warper x y t = lf_val lf ix iy iu iv"
    by (rule ext)
       (simp add: warp_value_def lx_def [symmetric] ly_def [symmetric] lu_def [symmetric]
          lv_def [symmetric] idx)
  show ?thesis
    using loop
    by (simp add: LFWarp_pixel_def wget val n
          lx_def [symmetric] ly_def [symmetric] lu_def [symmetric] lv_def [symmetric] idx)
qed

lemma warp_filled_weaken:
  assumes "warp_filled lf warper nt ny nx out"
    and "\<And>x y t. 0 \<le> x \<Longrightarrow> x < width warper \<Longrightarrow> 0 \<le> y \<Longrightarrow> y < height warper \<Longrightarrow> 0 \<le> t \<Longrightarrow>
           t < nt' \<or> t = nt' \<and> (y < ny' \<or> y = ny' \<and> x < nx') \<Longrightarrow>
           t < nt \<or> t = nt \<and> (y < ny \<or> y = ny \<and> x < nx)"
  shows "warp_filled lf warper nt' ny' nx' out"
  unfolding warp_filled_def
proof (intro conjI allI impI)
  show "same_extents out (LFWarp_out lf warper)"
    using assms(1) by (simp add: warp_filled_def)
next
  fix x y t c
  assume a: "0 \<le> x \<and> x < width warper \<and> 0 \<le> y \<and> y < height warper \<and> 0 \<le> t \<and>
        0 \<le> c \<and> c < channels (image_lf lf) \<and>
        (t < nt' \<or> t = nt' \<and> (y < ny' \<or> y = ny' \<and> x < nx'))"
  then have "t < nt \<or> t = nt \<and> (y < ny \<or> y = ny \<and> x < nx)"
    by (intro assms(2)) simp_all
  with a assms(1) show "data out (x, y, t, c) = warp_value lf warper x y t c"
    unfolding warp_filled_def by blast
qed

lemma warp_filled_pixel:
  assumes wf: "lf_wf lf" "0 < xSize lf" "0 < ySize lf"
    and w: "4 \<le> channels warper" "frames warper = width warper" "height warper = width warper"
    and p: "0 \<le> x" "x < width warper" "0 \<le> y" "y < height warper" "0 \<le> t" "t < frames warper"
    and inv: "warp_filled lf warper t y x out"
  shows "\<exists>out'. LFWarp_pixel sample4D lf warper True t y x out = Inr out' \<and>
           warp_filled lf warper t y (x + 1) out'"
proof -
  have ext: "same_extents out (LFWarp_out lf warper)"
    using inv by (simp add: warp_filled_def)
  have inw: "in_image warper x y t 0"
    using p w(1) by (simp add: in_image_def)
  have ino: "x < width out" "y < height out" "t < frames out"
      "channels (image_lf lf) \<le> channels out"
    using p w ext
    by (simp_all add: same_extents_def LFWarp_out_def new_image_def)
  define out' where
    "out' = write_channels out x y t (channels (image_lf lf)) (warp_value lf warper x y t)"
  have px: "LFWarp_pixel sample4D lf warper True t y x out = Inr out'"
    unfolding out'_def by (rule LFWarp_pixel_quick [OF wf inw w(1) ino])
  have "warp_filled lf warper t y (x + 1) out'"
    using inv
    unfolding warp_filled_def out'_def
    by (auto simp: write_channels_def same_extents_def)
  with px show ?thesis by blast
qed

lemma warp_filled_row:
  assumes wf: "lf_wf lf" "0 < xSize lf" "0 < ySize lf"
    and w: "4 \<le> channels warper" "frames warper = width warper" "height warper = width warper"
    and p: "0 \<le> y" "y < height warper" "0 \<le> t" "t < frames warper"
    and inv: "warp_filled lf warper t y 0 out"
  shows "\<exists>out'. for_loop (width warper)
             (\<lambda>x. LFWarp_pixel sample4D lf warper True t y x) out = Inr out' \<and>
           warp_filled lf warper t (y + 1) 0 out'"
proof -
  have "\<exists>out'. for_loop (width warper)
             (\<lambda>x. LFWarp_pixel sample4D lf warper True t y x) out = Inr out' \<and>
           warp_filled lf warper t y (int (nat (width warper))) out'"
  proof (rule for_loop_inv_idx [where I = "\<lambda>i. warp_filled lf warper t y (int i)"])
    show "warp_filled lf warper t y (int 0) out" using inv by simp
  next
    fix i s
    assume i: "i < nat (width warper)" and s: "warp_filled lf warper t y (int i) s"
    have "\<exists>out'. LFWarp_pixel sample4D lf warper True t y (int i) s = Inr out' \<and>
           warp_filled lf warper t y (int i + 1) out'"
      using i by (intro warp_filled_pixel [OF wf w _ _ p s]) simp_all
    then show "\<exists>s'. LFWarp_pixel sample4D lf warper True t y (int i) s = Inr s' \<and>
           warp_filled lf warper t y (int (Suc i)) s'"
      by (simp add: add.commute)
  qed
  then obtain out' where
    o: "for_loop (width warper) (\<lambda>x. LFWarp_pixel sample4D lf warper True t y x) out = Inr out'"
       "warp_filled lf warper t y (int (nat (width warper))) out'"
    by blast
  have "warp_filled lf warper t (y + 1) 0 out'"
    by (rule warp_filled_weaken [OF o(2)]) auto
  with o(1) show ?thesis by blast
qed

lemma warp_filled_frame:
  assumes wf: "lf_wf lf" "0 < xSize lf" "0 < ySize lf"
    and w: "4 \<le> channels warper" "frames warper = width warper" "height warper = width warper"
    and p: "0 \<le> t" "t < frames warper"
    and inv: "warp_filled lf warper t 0 0 out"
  shows "\<exists>out'. for_loop (height warper) (\<lambda>y.
             for_loop (width warper) (\<lambda>x. LFWarp_pixel sample4D lf warper True t y x)) out = Inr out' \<and>
           warp_filled lf warper (t + 1) 0 0 out'"
proof -
  have "\<exists>out'. for_loop (height warper) (\<lambda>y.
             for_loop (width warper) (\<lambda>x. LFWarp_pixel sample4D lf warper True t y x)) out = Inr out' \<and>
           warp_filled lf warper t (int (nat (height warper))) 0 out'"
  proof (rule for_loop_inv_idx [where I = "\<lambda>i. warp_filled lf warper t (int i) 0"])
    show "warp_filled lf warper t (int 0) 0 out" using inv by simp
  next
    fix i s
    assume i: "i < nat (height warper)" and s: "warp_filled lf warper t (int i) 0 s"
    have "\<exists>out'. for_loop (width warper)
             (\<lambda>x. LFWarp_pixel sample4D lf warper True t (int i) x) s = Inr out' \<and>
           warp_filled lf warper t (int i + 1) 0 out'"
      using i by (intro warp_filled_row [OF wf w _ _ p s]) simp_all
    then show "\<exists>s'. for_loop (width warper)
             (\<lambda>x. LFWarp_pixel sample4D lf warper True t (int i) x) s = Inr s' \<and>
           warp_filled lf warper t (int (Suc i)) 0 s'"
      by (simp add: add.commute)
  qed
  then obtain out' where
    o: "for_loop (height warper) (\<lambda>y.
          for_loop (width warper) (\<lambda>x. LFWarp_pixel sample4D lf warper True t y x)) out = Inr out'"
       "warp_filled lf warper t (int (nat (height warper))) 0 out'"
    by blast
  have "warp_filled lf warper (t + 1) 0 0 out'"
    by (rule warp_filled_weaken [OF o(2)]) auto
  with o(1) show ?thesis by blast
qed

lemma LFWarp_apply_quick:
  assumes wf: "lf_wf lf" "0 < xSize lf" "0 < ySize lf"
    and w: "4 \<le> channels warper" "frames warper = width warper" "height warper = width warper"
  shows "\<exists>out. LFWarp_apply sample4D lf warper True = Inr out \<and>
           same_extents out (LFWarp_out lf warper) \<and>
           (\<forall>x y t c. in_image warper x y t 0 \<and> 0 \<le> c \<and> c < channels (image_lf lf) \<longrightarrow>
              data out (x, y, t, c) = warp_value lf warper x y t c)"
proof -
  have "\<exists>out. for_loop (frames warper) (\<lambda>t.
           for_loop (height warper) (\<lambda>y.
             for_loop (width warper) (\<lambda>x.
               LFWarp_pixel sample4D lf warper True t y x))) (LFWarp_out lf warper) = Inr out \<and>
           warp_filled lf warper (int (nat (frames warper))) 0 0 out"
  proof (rule for_loop_inv_idx [where I = "\<lambda>i. warp_filled lf warper (int i) 0 0"])
    show "warp_filled lf warper (int 0) 0 0 (LFWarp_out lf warper)"
      by (auto simp: warp_filled_def same_extents_def)
  next
    fix i s
    assume i: "i < nat (frames warper)" and s: "warp_filled lf warper (int i) 0 0 s"
    have "\<exists>out'. for_loop (height warper) (\<lambda>y.
             for_loop (width warper) (\<lambda>x.
               LFWarp_pixel sample4D lf warper True (int i) y x)) s = Inr out' \<and>
           warp_filled lf warper (int i + 1) 0 0 out'"
      using i by (intro warp_filled_frame [OF wf w _ _ s]) simp_all
    then show "\<exists>s'. for_loop (height warper) (\<lambda>y.
             for_loop (width warper) (\<lambda>x.
               LFWarp_pixel sample4D lf warper True (int i) y x)) s = Inr s' \<and>
           warp_filled lf warper (int (Suc i)) 0 0 s'"
      by (simp add: add.commute)
  qed
  then obtain out where
    o: "LFWarp_apply sample4D lf warper True = Inr out"
       "warp_filled lf warper (int (nat (frames warper))) 0 0 out"
    by (auto simp: LFWarp_apply_def)
  have "data out (x, y, t, c) = warp_value lf warper x y t c"
    if "in_image warper x y t 0" "0 \<le> c" "c < channels (image_lf lf)" for x y t c
    using o(2) that unfolding warp_filled_def in_image_def by auto
  then show ?thesis
    using o by (auto simp: warp_filled_def)
qed

lemma LFWarp_index_nearest:
  assumes "0 \<le> s0" "s0 \<le> 1" "0 \<le> s1" "s1 \<le> 1" "0 \<le> s2" "s2 \<le> 1" "0 \<le> s3" "s3 \<le> 1"
    and "1 \<le> xSize lf" "xSize lf \<le> 2147483584" "1 \<le> ySize lf" "ySize lf \<le> 2147483584"
    and "1 \<le> uSize lf" "uSize lf \<le> 2147483584" "1 \<le> vSize lf" "vSize lf \<le> 2147483584"
  shows "LFWarp_index lf
           (float_mul s0 (float_of_int (xSize lf - 1))) (float_mul s1 (float_of_int (ySize lf - 1)))
           (float_mul s2 (float_of_int (uSize lf - 1))) (float_mul s3 (float_of_int (vSize lf - 1))) =
         (clamp (round (float_mul s0 (float_of_int (xSize lf - 1)))) 0 (xSize lf - 1),
          clamp (round (float_mul s1 (float_of_int (ySize lf - 1)))) 0 (ySize lf - 1),
          clamp (round (float_mul s2 (float_of_int (uSize lf - 1)))) 0 (uSize lf - 1),
          clamp (round (float_mul s3 (float_of_int (vSize lf - 1)))) 0 (vSize lf - 1))"
  using assms by (simp add: LFWarp_index_def c_int_scaled)

lemma lf_extents_bounded:
  assumes "lf_wf lf" "0 < xSize lf" "0 < ySize lf"
    and "width (image_lf lf) \<le> b" "height (image_lf lf) \<le> b"
  shows "xSize lf \<le> b" "ySize lf \<le> b" "uSize lf \<le> b" "vSize lf \<le> b"
proof -
  have pos: "1 \<le> xSize lf" "1 \<le> ySize lf" "1 \<le> uSize lf" "1 \<le> vSize lf"
    using assms(1-3) by (simp_all add: lf_wf_def)
  then have "0 \<le> xSize lf * (uSize lf - 1)" "0 \<le> uSize lf * (xSize lf - 1)"
       "0 \<le> ySize lf * (vSize lf - 1)" "0 \<le> vSize lf * (ySize lf - 1)"
    by simp_all
  then have "xSize lf \<le> xSize lf * uSize lf" "uSize lf \<le> xSize lf * uSize lf"
       "ySize lf \<le> ySize lf * vSize lf" "vSize lf \<le> ySize lf * vSize lf"
    by (simp_all add: algebra_simps)
  then show "xSize lf \<le> b" "ySize lf \<le> b" "uSize lf \<le> b" "vSize lf \<le> b"
    using assms(1,4,5) unfolding lf_wf_def by linarith+
qed

text \<open>
  Claim C5, as amended. In fast mode, for a non-empty light field over a buffer at most
  2147483584 wide and high and a coordinate map of at least four channels whose frame count,
  width and height are equal, the warp returns an image with the extents of the map and the
  channel count of the light field, and at every output pixel whose four map values lie in
  \<open>[0, 1]\<close> every channel holds the element of the light field at the four scaled
  coordinates, each rounded to the nearest integer and clamped to its range: a direct
  lookup, with no interpolation. The scaled coordinates are the products the source stores in
  its \<open>float\<close> variables \<open>lx\<close>, \<open>ly\<close>, \<open>lu\<close>, \<open>lv\<close>: the binary32 product of the map value
  and the extent less one. For a map whose extents differ the output the source allocates
  has not the shape of the map (claim C2); beyond the bound on the buffer an extent less one
  may convert to the \<open>float\<close> \<open>2 ^ 31\<close>, which no \<open>int\<close> holds.
\<close>

theorem LFWarp_quick_nearest:
  assumes wf: "lf_wf lf" "0 < xSize lf" "0 < ySize lf"
    and sz: "width (image_lf lf) \<le> 2147483584" "height (image_lf lf) \<le> 2147483584"
    and w: "4 \<le> channels warper" "frames warper = width warper" "height warper = width warper"
  shows "\<exists>out. LFWarp_apply sample4D lf warper True = Inr out \<and>
      width out = width warper \<and> height out = height warper \<and> frames out = frames warper \<and>
      channels out = channels (image_lf lf) \<and>
      (\<forall>x y t c. in_image warper x y t 0 \<and> 0 \<le> c \<and> c < channels (image_lf lf) \<and>
         0 \<le> data warper (x, y, t, 0) \<and> data warper (x, y, t, 0) \<le> 1 \<and>
         0 \<le> data warper (x, y, t, 1) \<and> data warper (x, y, t, 1) \<le> 1 \<and>
         0 \<le> data warper (x, y, t, 2) \<and> data warper (x, y, t, 2) \<le> 1 \<and>
         0 \<le> data warper (x, y, t, 3) \<and> data warper (x, y, t, 3) \<le> 1 \<longrightarrow>
         lf_get lf
           (clamp (round (float_mul (data warper (x, y, t, 0)) (float_of_int (xSize lf - 1))))
              0 (xSize lf - 1))
           (clamp (round (float_mul (data warper (x, y, t, 1)) (float_of_int (ySize lf - 1))))
              0 (ySize lf - 1))
           (clamp (round (float_mul (data warper (x, y, t, 2)) (float_of_int (uSize lf - 1))))
              0 (uSize lf - 1))
           (clamp (round (float_mul (data warper (x, y, t, 3)) (float_of_int (vSize lf - 1))))
              0 (vSize lf - 1))
           c
         = Inr (data out (x, y, t, c)))"
proof -
  obtain out where
    ap: "LFWarp_apply sample4D lf warper True = Inr out" and
    ext: "same_extents out (LFWarp_out lf warper)" and
    val: "\<And>x y t c. in_image warper x y t 0 \<Longrightarrow> 0 \<le> c \<Longrightarrow> c < channels (image_lf lf) \<Longrightarrow>
            data out (x, y, t, c) = warp_value lf warper x y t c"
    using LFWarp_apply_quick [OF wf w, of sample4D] by blast
  have pos: "1 \<le> xSize lf" "1 \<le> ySize lf" "1 \<le> uSize lf" "1 \<le> vSize lf"
    using wf by (simp_all add: lf_wf_def)
  note small = lf_extents_bounded [OF wf sz]
  have px: "lf_get lf
           (clamp (round (float_mul (data warper (x, y, t, 0)) (float_of_int (xSize lf - 1))))
              0 (xSize lf - 1))
           (clamp (round (float_mul (data warper (x, y, t, 1)) (float_of_int (ySize lf - 1))))
              0 (ySize lf - 1))
           (clamp (round (float_mul (data warper (x, y, t, 2)) (float_of_int (uSize lf - 1))))
              0 (uSize lf - 1))
           (clamp (round (float_mul (data warper (x, y, t, 3)) (float_of_int (vSize lf - 1))))
              0 (vSize lf - 1))
           c
         = Inr (data out (x, y, t, c))"
    if inw: "in_image warper x y t 0" and c: "0 \<le> c" "c < channels (image_lf lf)"
      and s: "0 \<le> data warper (x, y, t, 0)" "data warper (x, y, t, 0) \<le> 1"
         "0 \<le> data warper (x, y, t, 1)" "data warper (x, y, t, 1) \<le> 1"
         "0 \<le> data warper (x, y, t, 2)" "data warper (x, y, t, 2) \<le> 1"
         "0 \<le> data warper (x, y, t, 3)" "data warper (x, y, t, 3) \<le> 1"
    for x y t c
  proof -
    note idx = LFWarp_index_nearest [OF s pos(1) small(1) pos(2) small(2) pos(3) small(3)
        pos(4) small(4)]
    show ?thesis
      using LFWarp_index_lookup [OF wf idx c] val [OF inw c]
      by (simp add: warp_value_def idx lf_val_def)
  qed
  have e: "width out = width warper" "height out = height warper" "frames out = frames warper"
      "channels out = channels (image_lf lf)"
    using ext w by (simp_all add: same_extents_def LFWarp_out_def new_image_def)
  show ?thesis
  proof (intro exI [of _ out] conjI ap e allI impI)
    fix x y t c
    assume a: "in_image warper x y t 0 \<and> 0 \<le> c \<and> c < channels (image_lf lf) \<and>
         0 \<le> data warper (x, y, t, 0) \<and> data warper (x, y, t, 0) \<le> 1 \<and>
         0 \<le> data warper (x, y, t, 1) \<and> data warper (x, y, t, 1) \<le> 1 \<and>
         0 \<le> data warper (x, y, t, 2) \<and> data warper (x, y, t, 2) \<le> 1 \<and>
         0 \<le> data warper (x, y, t, 3) \<and> data warper (x, y, t, 3) \<le> 1"
    then show "lf_get lf
           (clamp (round (float_mul (data warper (x, y, t, 0)) (float_of_int (xSize lf - 1))))
              0 (xSize lf - 1))
           (clamp (round (float_mul (data warper (x, y, t, 1)) (float_of_int (ySize lf - 1))))
              0 (ySize lf - 1))
           (clamp (round (float_mul (data warper (x, y, t, 2)) (float_of_int (uSize lf - 1))))
              0 (uSize lf - 1))
           (clamp (round (float_mul (data warper (x, y, t, 3)) (float_of_int (vSize lf - 1))))
              0 (vSize lf - 1))
           c
         = Inr (data out (x, y, t, c))"
      by (intro px) simp_all
  qed
qed

theorem LFWarp_quick_nearest_witness:
  "lf_wf example_lf \<and> in_image example_map 0 0 0 0 \<and>
   (\<exists>out. LFWarp_apply no_sampler example_lf example_map True = Inr out \<and>
      width out = 1 \<and> height out = 1 \<and> frames out = 1 \<and> channels out = 1 \<and>
      lf_get example_lf 1 0 1 1 0 = Inr (data out (0, 0, 0, 0)) \<and>
      data out (0, 0, 0, 0) = 7)"
proof -
  have sz: "xSize example_lf = 2" "ySize example_lf = 2" "uSize example_lf = 2" "vSize example_lf = 2"
      "channels (image_lf example_lf) = 1" "width (image_lf example_lf) = 4"
      "height (image_lf example_lf) = 4"
    by (simp_all add: example_lf_def light_field_def)
  have m: "in_image example_map 0 0 0 0" "channels example_map = 4" "width example_map = 1"
      "height example_map = 1" "frames example_map = 1"
      "data example_map (0, 0, 0, 0) = 1" "data example_map (0, 0, 0, 1) = 0"
      "data example_map (0, 0, 0, 2) = 1 / 2" "data example_map (0, 0, 0, 3) = 1 / 2"
    by (simp_all add: example_map_def in_image_def)
  from LFWarp_quick_nearest [of example_lf example_map no_sampler] obtain out where
    ap: "LFWarp_apply no_sampler example_lf example_map True = Inr out" and
    e: "width out = 1" "height out = 1" "frames out = 1" "channels out = 1" and
    px: "\<forall>x y t c. in_image example_map x y t 0 \<and> 0 \<le> c \<and> c < channels (image_lf example_lf) \<and>
         0 \<le> data example_map (x, y, t, 0) \<and> data example_map (x, y, t, 0) \<le> 1 \<and>
         0 \<le> data example_map (x, y, t, 1) \<and> data example_map (x, y, t, 1) \<le> 1 \<and>
         0 \<le> data example_map (x, y, t, 2) \<and> data example_map (x, y, t, 2) \<le> 1 \<and>
         0 \<le> data example_map (x, y, t, 3) \<and> data example_map (x, y, t, 3) \<le> 1 \<longrightarrow>
         lf_get example_lf
           (clamp (round (float_mul (data example_map (x, y, t, 0)) (float_of_int (xSize example_lf - 1))))
              0 (xSize example_lf - 1))
           (clamp (round (float_mul (data example_map (x, y, t, 1)) (float_of_int (ySize example_lf - 1))))
              0 (ySize example_lf - 1))
           (clamp (round (float_mul (data example_map (x, y, t, 2)) (float_of_int (uSize example_lf - 1))))
              0 (uSize example_lf - 1))
           (clamp (round (float_mul (data example_map (x, y, t, 3)) (float_of_int (vSize example_lf - 1))))
              0 (vSize example_lf - 1))
           c
         = Inr (data out (x, y, t, c))"
    using example_lf_wf by (auto simp: sz m)
  have "lf_get example_lf 1 0 1 1 0 = Inr (data out (0, 0, 0, 0))"
    using px [rule_format, of 0 0 0 0]
    by (simp add: sz m float_mul_def float_of_int_def float_round_values float_round_0
          clamp_def round_def)
  moreover have "lf_get example_lf 1 0 1 1 0 = Inr 7"
    by (simp add: example_lf_def light_field_def lf_get_def in_lf_def im_get_def in_image_def)
  ultimately show ?thesis
    using ap e m(1) example_lf_wf by simp
qed

lemma row_lf_wf: "lf_wf row_lf"
  by (simp add: row_lf_def light_field_def lf_wf_def)

text \<open>
  Claim C5, as stated, fails: the claim rounds the exact product \<open>s * (X - 1)\<close>. For the row
  of four pixels and the map value \<open>s = 13981013 / 16777216\<close>, \<open>s * 3\<close> lies below \<open>5/2\<close>
  and rounds to 2, the pixel that holds 2; the product in binary32 is \<open>5/2\<close>, the source
  computes the index 3, and the output pixel holds 3.
\<close>

theorem LFWarp_quick_nearest_counterexample:
  "lf_wf row_lf \<and> xSize row_lf = 4 \<and> ySize row_lf = 1 \<and> uSize row_lf = 1 \<and> vSize row_lf = 1 \<and>
   in_image edge_map 0 0 0 0 \<and>
   data edge_map (0, 0, 0, 0) = 13981013 / 16777216 \<and>
   (0::real) \<le> 13981013 / 16777216 \<and> (13981013 / 16777216 :: real) \<le> 1 \<and>
   data edge_map (0, 0, 0, 1) = 0 \<and> data edge_map (0, 0, 0, 2) = 0 \<and>
   data edge_map (0, 0, 0, 3) = 0 \<and>
   clamp (round (13981013 / 16777216 * real_of_int (xSize row_lf - 1))) 0 (xSize row_lf - 1) = 2 \<and>
   lf_get row_lf 2 0 0 0 0 = Inr 2 \<and>
   float_mul (13981013 / 16777216) (float_of_int (xSize row_lf - 1)) = 5 / 2 \<and>
   map_sum id (\<lambda>out. data out (0, 0, 0, 0)) (LFWarp_apply no_sampler row_lf edge_map True) = Inr 3"
proof -
  have sz: "xSize row_lf = 4" "ySize row_lf = 1" "uSize row_lf = 1" "vSize row_lf = 1"
      "channels (image_lf row_lf) = 1"
    by (simp_all add: row_lf_def light_field_def)
  have m: "in_image edge_map 0 0 0 0" "data edge_map (0, 0, 0, 0) = 13981013 / 16777216"
      "data edge_map (0, 0, 0, 1) = 0" "data edge_map (0, 0, 0, 2) = 0"
      "data edge_map (0, 0, 0, 3) = 0"
    by (simp_all add: edge_map_def in_image_def)
  have spec: "clamp (round (13981013 / 16777216 * real_of_int (xSize row_lf - 1))) 0
      (xSize row_lf - 1) = 2"
    by (simp add: sz clamp_def round_def)
  have get: "lf_get row_lf 2 0 0 0 0 = Inr 2"
    by (simp add: row_lf_def light_field_def lf_get_def in_lf_def im_get_def in_image_def)
  have lx: "float_mul (13981013 / 16777216) (float_of_int (xSize row_lf - 1)) = 5 / 2"
    by (simp add: sz float_mul_def float_of_int_def float_round_values float_round_tie)
  have ap: "map_sum id (\<lambda>out. data out (0, 0, 0, 0))
      (LFWarp_apply no_sampler row_lf edge_map True) = Inr 3"
    by (simp add: LFWarp_apply_def LFWarp_out_def new_image_def for_loop_1 LFWarp_pixel_def
          edge_map_def im_get_def im_set_def in_image_def row_lf_def light_field_def
          LFWarp_index_def c_int_def clamp_def lf_get_def in_lf_def
          float_mul_def float_of_int_def float_round_values float_round_0 float_round_tie
          double_add_def double_round_values)
  show ?thesis
    using row_lf_wf sz m spec get lx ap by simp
qed

text \<open>
  Claim C2. The output of the warp should have the frame count, width and height of the
  coordinate map. The source passes the map's frames, width and height where the
  constructor takes width, height and frames: for a map two pixels wide, one high, of one
  frame, the image it allocates is one pixel wide and two high, and the write of the second
  output pixel is out of its bounds.
\<close>

theorem LFWarp_output_extents_transposed:
  "width wide_map = 2 \<and> height wide_map = 1 \<and> frames wide_map = 1 \<and>
   width (LFWarp_out example_lf wide_map) = 1 \<and>
   height (LFWarp_out example_lf wide_map) = 2 \<and>
   frames (LFWarp_out example_lf wide_map) = 1 \<and>
   LFWarp_apply no_sampler example_lf wide_map True = Inl OutOfBounds"
  by (simp add: wide_map_def LFWarp_out_def new_image_def LFWarp_apply_def for_loop_1 for_loop_2
        LFWarp_pixel_def im_get_def im_set_def in_image_def example_lf_def light_field_def
        LFWarp_index_def c_int_def clamp_def lf_get_def in_lf_def
        float_mul_def float_round_0 double_add_def double_round_values)

section \<open>The point marker: proofs\<close>

lemma lf_index_unique:
  fixes x x' u u' n :: int
  assumes "0 \<le> u" "u < n" "0 \<le> u'" "u' < n" "x * n + u = x' * n + u'"
  shows "x = x' \<and> u = u'"
proof -
  have d: "(x * n + u) div n = x" "(x' * n + u') div n = x'"
    using assms(1-4) by simp_all
  have "x = (x * n + u) div n" by (simp only: d)
  also have "\<dots> = (x' * n + u') div n" by (simp only: assms(5))
  also have "\<dots> = x'" by (simp only: d)
  finally have "x = x'" .
  then show ?thesis using assms(5) by simp
qed

lemma marks_only_refl: "marks_only lf px py pz lf"
  by (simp add: marks_only_def same_extents_def)

lemma marks_only_lf_set:
  assumes wf: "lf_wf lf"
    and inv: "marks_only lf px py pz lf1"
    and pt: "in_lf lf x y u v" "LFPoint_project lf px py pz u v = (x, y)"
    and c: "0 \<le> c" "c < channels (image_lf lf)"
  shows "\<exists>lf2. lf_set lf1 x y u v c 1 = Inr lf2 \<and> marks_only lf px py pz lf2"
proof -
  have sz: "uSize lf1 = uSize lf" "vSize lf1 = vSize lf" "xSize lf1 = xSize lf" "ySize lf1 = ySize lf"
      "same_extents (image_lf lf1) (image_lf lf)"
    using inv by (simp_all add: marks_only_def)
  have in1: "in_lf lf1 x y u v" using pt(1) sz by (simp add: in_lf_def)
  have "in_image (image_lf lf) (x * uSize lf + u) (y * vSize lf + v) 0 c"
    by (rule lf_coords_in_image [OF wf pt(1) c])
  then have im1: "in_image (image_lf lf1) (x * uSize lf1 + u) (y * vSize lf1 + v) 0 c"
    using sz by (simp add: in_image_def same_extents_def)
  define lf2 where "lf2 = lf1\<lparr>image_lf := (image_lf lf1)\<lparr>data := (data (image_lf lf1))
      ((x * uSize lf1 + u, y * vSize lf1 + v, 0, c) := 1)\<rparr>\<rparr>"
  have set: "lf_set lf1 x y u v c 1 = Inr lf2"
    using in1 im1 by (simp add: lf_set_def im_set_def lf2_def)
  have "data (image_lf lf2) (X, Y, t, c') \<noteq> data (image_lf lf) (X, Y, t, c') \<longrightarrow>
        t = 0 \<and> 0 \<le> c' \<and> c' < channels (image_lf lf) \<and>
        (\<exists>u v x y. in_lf lf x y u v \<and> LFPoint_project lf px py pz u v = (x, y) \<and>
           X = x * uSize lf + u \<and> Y = y * vSize lf + v)" for X Y t c'
  proof (cases "(X, Y, t, c') = (x * uSize lf1 + u, y * vSize lf1 + v, 0, c)")
    case True
    then show ?thesis using pt c sz by auto
  next
    case False
    then have "data (image_lf lf2) (X, Y, t, c') = data (image_lf lf1) (X, Y, t, c')"
      by (auto simp: lf2_def)
    then show ?thesis using inv by (simp add: marks_only_def)
  qed
  then have frame: "\<forall>X Y t c. data (image_lf lf2) (X, Y, t, c) \<noteq> data (image_lf lf) (X, Y, t, c) \<longrightarrow>
        t = 0 \<and> 0 \<le> c \<and> c < channels (image_lf lf) \<and>
        (\<exists>u v x y. in_lf lf x y u v \<and> LFPoint_project lf px py pz u v = (x, y) \<and>
           X = x * uSize lf + u \<and> Y = y * vSize lf + v)"
    by blast
  have sz2: "uSize lf2 = uSize lf" "vSize lf2 = vSize lf" "xSize lf2 = xSize lf" "ySize lf2 = ySize lf"
    "same_extents (image_lf lf2) (image_lf lf)"
    using sz by (simp_all add: lf2_def same_extents_def)
  have "marks_only lf px py pz lf2"
    unfolding marks_only_def by (intro conjI sz2 frame)
  with set show ?thesis by blast
qed

lemma marks_only_view:
  assumes wf: "lf_wf lf"
    and inv: "marks_only lf px py pz lf1"
    and uv: "0 \<le> u" "u < uSize lf" "0 \<le> v" "v < vSize lf"
  shows "\<exists>lf2. LFPoint_view px py pz v u lf1 = Inr lf2 \<and> marks_only lf px py pz lf2"
proof -
  obtain x y where xy: "LFPoint_project lf px py pz u v = (x, y)"
    by (cases "LFPoint_project lf px py pz u v") blast
  have sz: "uSize lf1 = uSize lf" "vSize lf1 = vSize lf" "xSize lf1 = xSize lf" "ySize lf1 = ySize lf"
      "same_extents (image_lf lf1) (image_lf lf)"
    using inv by (simp_all add: marks_only_def)
  have xy1: "LFPoint_project lf1 px py pz u v = (x, y)"
    using xy by (simp add: LFPoint_project_def LFPoint_scaled_def sz)
  show ?thesis
  proof (cases "x < 0 \<or> x \<ge> xSize lf \<or> y < 0 \<or> y \<ge> ySize lf")
    case True
    then show ?thesis using inv by (simp add: LFPoint_view_def xy1 sz)
  next
    case False
    then have pt: "in_lf lf x y u v" using uv by (simp add: in_lf_def)
    have "\<exists>lf2. for_loop (channels (image_lf lf1)) (\<lambda>c lf. lf_set lf x y u v c 1) lf1 = Inr lf2 \<and>
        marks_only lf px py pz lf2"
    proof (rule for_loop_inv [where I = "marks_only lf px py pz", OF inv])
      fix c s
      assume "0 \<le> c" "c < channels (image_lf lf1)" "marks_only lf px py pz s"
      then show "\<exists>s'. lf_set s x y u v c 1 = Inr s' \<and> marks_only lf px py pz s'"
        using marks_only_lf_set [OF wf _ pt xy] sz(5) by (simp add: same_extents_def)
    qed
    then show ?thesis using False by (simp add: LFPoint_view_def xy1 sz)
  qed
qed

lemma marks_only_apply:
  assumes wf: "lf_wf lf"
  shows "\<exists>lf'. LFPoint_apply lf px py pz = Inr lf' \<and> marks_only lf px py pz lf'"
  unfolding LFPoint_apply_def
proof (rule for_loop_inv [where I = "marks_only lf px py pz", OF marks_only_refl])
  fix v s
  assume v: "0 \<le> v" "v < vSize lf" and s: "marks_only lf px py pz s"
  show "\<exists>s'. for_loop (uSize lf) (\<lambda>u. LFPoint_view px py pz v u) s = Inr s' \<and>
      marks_only lf px py pz s'"
  proof (rule for_loop_inv [where I = "marks_only lf px py pz", OF s])
    fix u s1
    assume "0 \<le> u" "u < uSize lf" "marks_only lf px py pz s1"
    then show "\<exists>s'. LFPoint_view px py pz v u s1 = Inr s' \<and> marks_only lf px py pz s'"
      using marks_only_view [OF wf _ _ _ v] by simp
  qed
qed

lemma LFPoint_project_nearest:
  assumes sc: "LFPoint_scaled lf px py pz u v = (sx, sy)"
    and pr: "LFPoint_project lf px py pz u v = (x, y)"
    and x: "0 \<le> x" "0 \<le> y"
    and band: "\<not> (- 3 / 2 < sx \<and> sx < - 1 / 2)" "\<not> (- 3 / 2 < sy \<and> sy < - 1 / 2)"
  shows "x = round sx \<and> y = round sy"
proof -
  have cx: "x = c_int (double_add sx (1 / 2))" and cy: "y = c_int (double_add sy (1 / 2))"
    using pr by (simp_all add: LFPoint_project_def sc)
  obtain a b where fl: "sx = float_round a" "sy = float_round b"
    using sc by (auto simp: LFPoint_scaled_def Let_def float_mul_def)
  have "x = round sx"
  proof -
    have "\<not> sx \<le> - 3 / 2" using c_int_half_negative [of sx] x(1) cx by auto
    then have lo: "- 1 / 2 \<le> sx" using band(1) by linarith
    have "\<not> 2147483648 \<le> sx + 1 / 2" using c_int_half_large [of sx] x(1) cx by auto
    then have hi: "sx + 1 / 2 < 2147483648" by linarith
    show ?thesis using c_int_half [of a] lo hi by (simp add: cx fl)
  qed
  moreover have "y = round sy"
  proof -
    have "\<not> sy \<le> - 3 / 2" using c_int_half_negative [of sy] x(2) cy by auto
    then have lo: "- 1 / 2 \<le> sy" using band(2) by linarith
    have "\<not> 2147483648 \<le> sy + 1 / 2" using c_int_half_large [of sy] x(2) cy by auto
    then have hi: "sy + 1 / 2 < 2147483648" by linarith
    show ?thesis using c_int_half [of b] lo hi by (simp add: cy fl)
  qed
  ultimately show ?thesis by simp
qed

text \<open>
  Claim C7, as amended. The point marker never fails and writes nothing out of range: it
  returns a light field of the same extents in which nothing outside the first frame of the
  buffer is modified, and in which the modified elements of one view all lie at one pixel.
  With the scaled coordinates \<open>sx = (px + pz * pu) * X\<close> and \<open>sy = (py + pz * pv) * Y\<close> of a
  view as the source computes them in binary32 (\<open>LFPoint_scaled\<close>), in a view of which
  neither lies strictly between \<open>-3/2\<close> and \<open>-1/2\<close> an element that is not at the pixel
  \<open>(round sx, round sy)\<close> is unmodified, so that such a view is unmodified as a whole when
  this pixel is outside \<open>[0, X) \<times> [0, Y)\<close>. Between \<open>-3/2\<close> and \<open>-1/2\<close> the conversion of
  the source truncates toward zero (claim C6).
\<close>

theorem LFPoint_frame:
  assumes "lf_wf lf"
  shows "\<exists>lf'. LFPoint_apply lf px py pz = Inr lf' \<and>
      uSize lf' = uSize lf \<and> vSize lf' = vSize lf \<and> xSize lf' = xSize lf \<and> ySize lf' = ySize lf \<and>
      same_extents (image_lf lf') (image_lf lf) \<and>
      (\<forall>X Y t c. \<not> in_image (image_lf lf) X Y t c \<or> t \<noteq> 0 \<longrightarrow>
         data (image_lf lf') (X, Y, t, c) = data (image_lf lf) (X, Y, t, c)) \<and>
      (\<forall>x y x' y' u v c c'. in_lf lf x y u v \<and> in_lf lf x' y' u v \<and>
         data (image_lf lf') (x * uSize lf + u, y * vSize lf + v, 0, c) \<noteq>
         data (image_lf lf) (x * uSize lf + u, y * vSize lf + v, 0, c) \<and>
         data (image_lf lf') (x' * uSize lf + u, y' * vSize lf + v, 0, c') \<noteq>
         data (image_lf lf) (x' * uSize lf + u, y' * vSize lf + v, 0, c') \<longrightarrow>
         x = x' \<and> y = y') \<and>
      (\<forall>x y u v c sx sy. in_lf lf x y u v \<and> LFPoint_scaled lf px py pz u v = (sx, sy) \<and>
         \<not> (- 3 / 2 < sx \<and> sx < - 1 / 2) \<and> \<not> (- 3 / 2 < sy \<and> sy < - 1 / 2) \<and>
         (x, y) \<noteq> (round sx, round sy) \<longrightarrow>
         data (image_lf lf') (x * uSize lf + u, y * vSize lf + v, 0, c) =
         data (image_lf lf) (x * uSize lf + u, y * vSize lf + v, 0, c)) \<and>
      (\<forall>u v sx sy. 0 \<le> u \<and> u < uSize lf \<and> 0 \<le> v \<and> v < vSize lf \<and>
         LFPoint_scaled lf px py pz u v = (sx, sy) \<and>
         \<not> (- 3 / 2 < sx \<and> sx < - 1 / 2) \<and> \<not> (- 3 / 2 < sy \<and> sy < - 1 / 2) \<and>
         (round sx < 0 \<or> xSize lf \<le> round sx \<or> round sy < 0 \<or> ySize lf \<le> round sy) \<longrightarrow>
         (\<forall>x y c. in_lf lf x y u v \<longrightarrow>
            data (image_lf lf') (x * uSize lf + u, y * vSize lf + v, 0, c) =
            data (image_lf lf) (x * uSize lf + u, y * vSize lf + v, 0, c)))"
proof -
  obtain lf' where ap: "LFPoint_apply lf px py pz = Inr lf'" and mo: "marks_only lf px py pz lf'"
    using marks_only_apply [OF assms] by blast
  have frame: "t = 0 \<and> 0 \<le> c \<and> c < channels (image_lf lf) \<and>
        (\<exists>u v x y. in_lf lf x y u v \<and> LFPoint_project lf px py pz u v = (x, y) \<and>
           X = x * uSize lf + u \<and> Y = y * vSize lf + v)"
    if "data (image_lf lf') (X, Y, t, c) \<noteq> data (image_lf lf) (X, Y, t, c)" for X Y t c
    using mo that unfolding marks_only_def by blast
  have marked: "LFPoint_project lf px py pz u v = (x, y)"
    if "in_lf lf x y u v"
      "data (image_lf lf') (x * uSize lf + u, y * vSize lf + v, 0, c) \<noteq>
       data (image_lf lf) (x * uSize lf + u, y * vSize lf + v, 0, c)" for x y u v c
  proof -
    from frame [OF that(2)] obtain u' v' x' y' where
      h: "in_lf lf x' y' u' v'" "LFPoint_project lf px py pz u' v' = (x', y')"
         "x * uSize lf + u = x' * uSize lf + u'" "y * vSize lf + v = y' * vSize lf + v'"
      by blast
    have "x = x' \<and> u = u'"
      using that(1) h(1) by (intro lf_index_unique [OF _ _ _ _ h(3)]) (simp_all add: in_lf_def)
    moreover have "y = y' \<and> v = v'"
      using that(1) h(1) by (intro lf_index_unique [OF _ _ _ _ h(4)]) (simp_all add: in_lf_def)
    ultimately show ?thesis using h(2) by simp
  qed
  have A: "data (image_lf lf') (X, Y, t, c) = data (image_lf lf) (X, Y, t, c)"
    if "\<not> in_image (image_lf lf) X Y t c \<or> t \<noteq> 0" for X Y t c
  proof (rule ccontr)
    assume "\<not> ?thesis"
    from frame [OF this] obtain u v x y where
      h: "t = 0" "0 \<le> c" "c < channels (image_lf lf)" "in_lf lf x y u v"
         "X = x * uSize lf + u" "Y = y * vSize lf + v"
      by blast
    have "in_image (image_lf lf) X Y t c"
      unfolding h(1,5,6) by (rule lf_coords_in_image [OF assms h(4) h(2,3)])
    then show False using that h(1) by simp
  qed
  have B: "x = x' \<and> y = y'"
    if "in_lf lf x y u v \<and> in_lf lf x' y' u v \<and>
         data (image_lf lf') (x * uSize lf + u, y * vSize lf + v, 0, c) \<noteq>
         data (image_lf lf) (x * uSize lf + u, y * vSize lf + v, 0, c) \<and>
         data (image_lf lf') (x' * uSize lf + u, y' * vSize lf + v, 0, c') \<noteq>
         data (image_lf lf) (x' * uSize lf + u, y' * vSize lf + v, 0, c')" for x y x' y' u v c c'
    using marked [of x y u v c] marked [of x' y' u v c'] that by simp
  have C: "data (image_lf lf') (x * uSize lf + u, y * vSize lf + v, 0, c) =
         data (image_lf lf) (x * uSize lf + u, y * vSize lf + v, 0, c)"
    if "in_lf lf x y u v \<and> LFPoint_scaled lf px py pz u v = (sx, sy) \<and>
         \<not> (- 3 / 2 < sx \<and> sx < - 1 / 2) \<and> \<not> (- 3 / 2 < sy \<and> sy < - 1 / 2) \<and>
         (x, y) \<noteq> (round sx, round sy)" for x y u v c sx sy
  proof (rule ccontr)
    assume "\<not> ?thesis"
    then have pr: "LFPoint_project lf px py pz u v = (x, y)"
      using marked [of x y u v c] that by simp
    have "x = round sx \<and> y = round sy"
      using that by (intro LFPoint_project_nearest [OF _ pr]) (simp_all add: in_lf_def)
    then show False using that by simp
  qed
  have D: "data (image_lf lf') (x * uSize lf + u, y * vSize lf + v, 0, c) =
         data (image_lf lf) (x * uSize lf + u, y * vSize lf + v, 0, c)"
    if "0 \<le> u \<and> u < uSize lf \<and> 0 \<le> v \<and> v < vSize lf \<and>
         LFPoint_scaled lf px py pz u v = (sx, sy) \<and>
         \<not> (- 3 / 2 < sx \<and> sx < - 1 / 2) \<and> \<not> (- 3 / 2 < sy \<and> sy < - 1 / 2) \<and>
         (round sx < 0 \<or> xSize lf \<le> round sx \<or> round sy < 0 \<or> ySize lf \<le> round sy)"
       "in_lf lf x y u v" for x y u v c sx sy
  proof (rule C)
    have "(x, y) \<noteq> (round sx, round sy)"
      using that by (auto simp: in_lf_def)
    then show "in_lf lf x y u v \<and> LFPoint_scaled lf px py pz u v = (sx, sy) \<and>
         \<not> (- 3 / 2 < sx \<and> sx < - 1 / 2) \<and> \<not> (- 3 / 2 < sy \<and> sy < - 1 / 2) \<and>
         (x, y) \<noteq> (round sx, round sy)"
      using that by simp
  qed
  have sz: "uSize lf' = uSize lf" "vSize lf' = vSize lf" "xSize lf' = xSize lf" "ySize lf' = ySize lf"
      "same_extents (image_lf lf') (image_lf lf)"
    using mo by (simp_all add: marks_only_def)
  show ?thesis
  proof (intro exI [of _ lf'] conjI ap sz allI impI)
    fix X Y t c
    assume "\<not> in_image (image_lf lf) X Y t c \<or> t \<noteq> 0"
    then show "data (image_lf lf') (X, Y, t, c) = data (image_lf lf) (X, Y, t, c)" by (rule A)
  next
    fix x y x' y' u v c c'
    assume a: "in_lf lf x y u v \<and> in_lf lf x' y' u v \<and>
         data (image_lf lf') (x * uSize lf + u, y * vSize lf + v, 0, c) \<noteq>
         data (image_lf lf) (x * uSize lf + u, y * vSize lf + v, 0, c) \<and>
         data (image_lf lf') (x' * uSize lf + u, y' * vSize lf + v, 0, c') \<noteq>
         data (image_lf lf) (x' * uSize lf + u, y' * vSize lf + v, 0, c')"
    show "x = x'" using B [OF a] by simp
    show "y = y'" using B [OF a] by simp
  next
    fix x y u v c sx sy
    assume "in_lf lf x y u v \<and> LFPoint_scaled lf px py pz u v = (sx, sy) \<and>
         \<not> (- 3 / 2 < sx \<and> sx < - 1 / 2) \<and> \<not> (- 3 / 2 < sy \<and> sy < - 1 / 2) \<and>
         (x, y) \<noteq> (round sx, round sy)"
    then show "data (image_lf lf') (x * uSize lf + u, y * vSize lf + v, 0, c) =
         data (image_lf lf) (x * uSize lf + u, y * vSize lf + v, 0, c)" by (rule C)
  next
    fix u v sx sy x y c
    assume "0 \<le> u \<and> u < uSize lf \<and> 0 \<le> v \<and> v < vSize lf \<and>
         LFPoint_scaled lf px py pz u v = (sx, sy) \<and>
         \<not> (- 3 / 2 < sx \<and> sx < - 1 / 2) \<and> \<not> (- 3 / 2 < sy \<and> sy < - 1 / 2) \<and>
         (round sx < 0 \<or> xSize lf \<le> round sx \<or> round sy < 0 \<or> ySize lf \<le> round sy)"
      and "in_lf lf x y u v"
    then show "data (image_lf lf') (x * uSize lf + u, y * vSize lf + v, 0, c) =
         data (image_lf lf) (x * uSize lf + u, y * vSize lf + v, 0, c)" by (rule D)
  qed
qed

theorem LFPoint_frame_witness:
  "lf_wf example_lf \<and> in_lf example_lf 1 1 1 1 \<and>
   LFPoint_scaled example_lf (1 / 2) (1 / 2) (7 / 4) 1 1 = (11 / 4, 11 / 4) \<and>
   round (11 / 4 :: real) = 3 \<and> xSize example_lf = 2 \<and>
   (\<exists>lf'. LFPoint_apply example_lf (1 / 2) (1 / 2) (7 / 4) = Inr lf' \<and>
      data (image_lf lf') (3, 3, 0, 0) = data (image_lf example_lf) (3, 3, 0, 0) \<and>
      data (image_lf lf') (0, 0, 1, 0) = data (image_lf example_lf) (0, 0, 1, 0))"
proof -
  have inlf: "in_lf example_lf 1 1 1 1"
    by (simp add: example_lf_def light_field_def in_lf_def)
  have sz: "uSize example_lf = 2" "vSize example_lf = 2" "xSize example_lf = 2"
      "ySize example_lf = 2"
    by (simp_all add: example_lf_def light_field_def)
  have sc: "LFPoint_scaled example_lf (1 / 2) (1 / 2) (7 / 4) 1 1 = (11 / 4, 11 / 4)"
    by (simp add: LFPoint_scaled_def LFPoint_offset_def sz
          float_mul_def float_add_def float_of_int_def double_add_def double_sub_def
          double_mul_def float_round_values double_round_values)
  have r: "round (11 / 4 :: real) = 3" by (simp add: round_def)
  from LFPoint_frame [OF example_lf_wf, of "1 / 2" "1 / 2" "7 / 4"] obtain lf' where
    ap: "LFPoint_apply example_lf (1 / 2) (1 / 2) (7 / 4) = Inr lf'" and
    rest: "\<forall>X Y t c. \<not> in_image (image_lf example_lf) X Y t c \<or> t \<noteq> 0 \<longrightarrow>
        data (image_lf lf') (X, Y, t, c) = data (image_lf example_lf) (X, Y, t, c)" and
    view: "\<forall>u v sx sy. 0 \<le> u \<and> u < uSize example_lf \<and> 0 \<le> v \<and> v < vSize example_lf \<and>
         LFPoint_scaled example_lf (1 / 2) (1 / 2) (7 / 4) u v = (sx, sy) \<and>
         \<not> (- 3 / 2 < sx \<and> sx < - 1 / 2) \<and> \<not> (- 3 / 2 < sy \<and> sy < - 1 / 2) \<and>
         (round sx < 0 \<or> xSize example_lf \<le> round sx \<or> round sy < 0 \<or>
          ySize example_lf \<le> round sy) \<longrightarrow>
         (\<forall>x y c. in_lf example_lf x y u v \<longrightarrow>
            data (image_lf lf') (x * uSize example_lf + u, y * vSize example_lf + v, 0, c) =
            data (image_lf example_lf) (x * uSize example_lf + u, y * vSize example_lf + v, 0, c))"
    by (elim exE conjE) (rule that)
  have "data (image_lf lf') (3, 3, 0, 0) = data (image_lf example_lf) (3, 3, 0, 0)"
    using view [rule_format, of 1 1 "11 / 4" "11 / 4" 1 1 0] inlf sc r by (simp add: sz)
  moreover have "data (image_lf lf') (0, 0, 1, 0) = data (image_lf example_lf) (0, 0, 1, 0)"
    using rest [rule_format, of 0 0 1 0] by simp
  ultimately show ?thesis
    using ap inlf sc r sz example_lf_wf by simp
qed

lemma six_lf_wf: "lf_wf six_lf"
  by (simp add: six_lf_def light_field_def lf_wf_def new_image_def)

text \<open>
  Claim C7, as stated, fails: the claim projects with the exact product. In the row of six
  pixels, for the point \<open>(13981013 / 33554432, 0, 0)\<close>, the exact coordinate \<open>px * 6\<close> lies
  below \<open>5/2\<close> and rounds to 2, so that the projected pixel is \<open>(2, 0)\<close>; the product in
  binary32 is \<open>5/2\<close>, and the source sets the element at the pixel \<open>(3, 0)\<close>, which held 0,
  to 1.
\<close>

theorem LFPoint_frame_counterexample:
  "lf_wf six_lf \<and> xSize six_lf = 6 \<and> ySize six_lf = 1 \<and> uSize six_lf = 1 \<and> vSize six_lf = 1 \<and>
   round ((13981013 / 33554432 + 0 * (real_of_int 0 + 1 / 2 - real_of_int (uSize six_lf) / 2))
            * real_of_int (xSize six_lf)) = 2 \<and>
   round ((0 + 0 * (real_of_int 0 + 1 / 2 - real_of_int (vSize six_lf) / 2))
            * real_of_int (ySize six_lf)) = 0 \<and>
   LFPoint_scaled six_lf (13981013 / 33554432) 0 0 0 0 = (5 / 2, 0) \<and>
   in_lf six_lf 3 0 0 0 \<and>
   data (image_lf six_lf) (3, 0, 0, 0) = 0 \<and>
   map_sum id (\<lambda>lf. data (image_lf lf) (3, 0, 0, 0))
     (LFPoint_apply six_lf (13981013 / 33554432) 0 0) = Inr 1"
proof -
  have sz: "xSize six_lf = 6" "ySize six_lf = 1" "uSize six_lf = 1" "vSize six_lf = 1"
      "channels (image_lf six_lf) = 1"
    by (simp_all add: six_lf_def light_field_def new_image_def)
  have spec: "round ((13981013 / 33554432 + 0 * (real_of_int 0 + 1 / 2 - real_of_int (uSize six_lf) / 2))
            * real_of_int (xSize six_lf)) = 2"
    "round ((0 + 0 * (real_of_int 0 + 1 / 2 - real_of_int (vSize six_lf) / 2))
            * real_of_int (ySize six_lf)) = 0"
    by (simp_all add: sz round_def)
  have sc: "LFPoint_scaled six_lf (13981013 / 33554432) 0 0 0 0 = (5 / 2, 0)"
    by (simp add: LFPoint_scaled_def LFPoint_offset_def sz
          float_mul_def float_add_def float_of_int_def double_add_def double_sub_def
          double_mul_def float_round_values double_round_values float_round_0 double_round_0
          float_round_point float_round_tie)
  have inlf: "in_lf six_lf 3 0 0 0" by (simp add: in_lf_def sz)
  have d0: "data (image_lf six_lf) (3, 0, 0, 0) = 0"
    by (simp add: six_lf_def light_field_def new_image_def)
  have pr: "LFPoint_project six_lf (13981013 / 33554432) 0 0 0 0 = (3, 0)"
    by (simp add: LFPoint_project_def sc double_add_def double_round_values c_int_def)
  have ap: "map_sum id (\<lambda>lf. data (image_lf lf) (3, 0, 0, 0))
     (LFPoint_apply six_lf (13981013 / 33554432) 0 0) = Inr 1"
  proof -
    have "LFPoint_apply six_lf (13981013 / 33554432) 0 0 = lf_set six_lf 3 0 0 0 0 1"
      by (simp add: LFPoint_apply_def sz for_loop_1 LFPoint_view_def pr)
    then show ?thesis
      by (simp add: lf_set_def in_lf_def im_set_def in_image_def six_lf_def light_field_def
            new_image_def)
  qed
  show ?thesis
    using six_lf_wf sz spec sc inlf d0 ap by simp
qed

text \<open>
  Claim C6. The projected pixel should be \<open>x = round ((px + pz * pu) * X)\<close>, and a view
  whose projected pixel is outside \<open>[0, X) \<times> [0, Y)\<close> is skipped. The source computes
  \<open>(int)((px + pz * pu) * X + 0.5)\<close>, and the conversion truncates toward zero: in the
  example light field, for the point \<open>(1/2, 1/2, 7/4)\<close> and the view \<open>(0, 0)\<close>, the scaled
  coordinate is \<open>-3/4\<close>, which rounds to \<open>-1\<close>, outside the image, while the source
  computes the pixel \<open>(0, 0)\<close> and sets the element there, which held 0, to 1.
\<close>

theorem LFPoint_rounds_toward_zero:
  "(1 / 2 + 7 / 4 * (real_of_int 0 + 1 / 2 - real_of_int (uSize example_lf) / 2))
     * real_of_int (xSize example_lf) = - 3 / 4 \<and>
   round (- 3 / 4 :: real) = - 1 \<and>
   LFPoint_project example_lf (1 / 2) (1 / 2) (7 / 4) 0 0 = (0, 0) \<and>
   data (image_lf example_lf) (0, 0, 0, 0) = 0 \<and>
   map_sum id (\<lambda>lf. data (image_lf lf) (0, 0, 0, 0))
     (LFPoint_apply example_lf (1 / 2) (1 / 2) (7 / 4)) = Inr 1"
  by (simp add: example_lf_def light_field_def LFPoint_project_def LFPoint_scaled_def
        LFPoint_offset_def c_int_def round_def
        LFPoint_apply_def LFPoint_view_def for_loop_1 for_loop_2 lf_set_def in_lf_def ceiling_def
        im_set_def in_image_def
        float_mul_def float_add_def float_of_int_def double_add_def double_sub_def double_mul_def
        float_round_values double_round_values)

section \<open>The loops over \<open>alpha\<close>\<close>

lemma alpha_sample_0 [simp]: "alpha_sample a d 0 = a"
  by (simp add: alpha_sample_def)

lemma alpha_sample_Suc: "alpha_sample a d (Suc k) = alpha_sample (float_add a d) d k"
  by (simp add: alpha_sample_def funpow_Suc_right del: funpow.simps)

lemma alpha_sample_step: "alpha_sample a d (Suc k) = float_add (alpha_sample a d k) d"
  by (simp add: alpha_sample_def)

text \<open>
  The counting loop returns exactly when some sample exceeds \<open>maxAlpha\<close>, and then it has
  counted the samples before the first such.
\<close>

lemma count_loop_Some_samples:
  assumes "count_loop a m d t = Some N"
  shows "\<exists>n. N = t + int n \<and> (\<forall>k<n. alpha_sample a d k \<le> m) \<and> \<not> alpha_sample a d n \<le> m"
proof (rule count_loop.raw_induct
    [where P = "\<lambda>a m d t N. \<exists>n. N = t + int n \<and> (\<forall>k<n. alpha_sample a d k \<le> m) \<and>
       \<not> alpha_sample a d n \<le> m", OF _ assms])
  fix loop :: "real \<Rightarrow> real \<Rightarrow> real \<Rightarrow> int \<Rightarrow> int option" and a m d t N
  assume IH: "\<And>a m d t N. loop a m d t = Some N \<Longrightarrow>
      \<exists>n. N = t + int n \<and> (\<forall>k<n. alpha_sample a d k \<le> m) \<and> \<not> alpha_sample a d n \<le> m"
    and step: "(if a \<le> m then loop (float_add a d) m d (t + 1) else Some t) = Some N"
  show "\<exists>n. N = t + int n \<and> (\<forall>k<n. alpha_sample a d k \<le> m) \<and> \<not> alpha_sample a d n \<le> m"
  proof (cases "a \<le> m")
    case True
    with step have "loop (float_add a d) m d (t + 1) = Some N" by simp
    from IH [OF this] obtain n where
      n: "N = t + 1 + int n" "\<forall>k<n. alpha_sample (float_add a d) d k \<le> m"
         "\<not> alpha_sample (float_add a d) d n \<le> m"
      by blast
    have "\<forall>k<Suc n. alpha_sample a d k \<le> m"
    proof (intro allI impI)
      fix k assume "k < Suc n"
      then show "alpha_sample a d k \<le> m"
        using True n(2) by (cases k) (simp_all add: alpha_sample_Suc)
    qed
    moreover have "\<not> alpha_sample a d (Suc n) \<le> m"
      using n(3) by (simp add: alpha_sample_Suc)
    moreover have "N = t + int (Suc n)" using n(1) by simp
    ultimately show ?thesis by blast
  next
    case False
    with step have "N = t" by simp
    then show ?thesis using False by (intro exI [of _ 0]) simp
  qed
qed

lemma count_loop_samples:
  assumes "\<forall>k<n. alpha_sample a d k \<le> m" "\<not> alpha_sample a d n \<le> m"
  shows "count_loop a m d t = Some (t + int n)"
  using assms
proof (induction n arbitrary: a t)
  case 0
  then show ?case by (subst count_loop.simps) simp
next
  case (Suc n)
  have a: "a \<le> m" using Suc.prems(1) [rule_format, of 0] by simp
  have "count_loop (float_add a d) m d (t + 1) = Some (t + 1 + int n)"
  proof (rule Suc.IH)
    show "\<forall>k<n. alpha_sample (float_add a d) d k \<le> m"
      using Suc.prems(1) by (auto simp: alpha_sample_Suc [symmetric])
    show "\<not> alpha_sample (float_add a d) d n \<le> m"
      using Suc.prems(2) by (simp add: alpha_sample_Suc)
  qed
  then show ?case using a by (subst count_loop.simps) simp
qed

lemma count_loop_None:
  assumes "\<And>k. alpha_sample a d k \<le> m"
  shows "count_loop a m d t = None"
proof (cases "count_loop a m d t")
  case None
  then show ?thesis .
next
  case (Some N)
  from count_loop_Some_samples [OF this] assms show ?thesis by blast
qed

text \<open>
  When some sample exceeds \<open>maxAlpha\<close>, the processing loop is the run of its body over the
  samples before the first such, with the frame indices counting up.
\<close>

lemma schedule_Suc:
  "schedule a d t (Suc n) = (t, a) # schedule (float_add a d) d (t + 1) n"
proof -
  have "[0..<Suc n] = 0 # map Suc [0..<n]"
    by (simp add: upt_conv_Cons map_Suc_upt del: upt_Suc)
  then show ?thesis
    by (simp add: schedule_def alpha_sample_Suc comp_def add.assoc del: upt_Suc)
qed

lemma process_loop_samples:
  assumes "\<forall>k<n. alpha_sample a d k \<le> m" "\<not> alpha_sample a d n \<le> m"
  shows "process_loop body a m d t s =
         Some (for_each (schedule a d t n) (\<lambda>(t, alpha). body t alpha) s)"
  using assms
proof (induction n arbitrary: a t s)
  case 0
  then show ?case by (subst process_loop.simps) (simp add: schedule_def)
next
  case (Suc n)
  have a: "a \<le> m" using Suc.prems(1) [rule_format, of 0] by simp
  have IH: "process_loop body (float_add a d) m d (t + 1) s' =
      Some (for_each (schedule (float_add a d) d (t + 1) n) (\<lambda>(t, alpha). body t alpha) s')" for s'
  proof (rule Suc.IH)
    show "\<forall>k<n. alpha_sample (float_add a d) d k \<le> m"
      using Suc.prems(1) by (auto simp: alpha_sample_Suc [symmetric])
    show "\<not> alpha_sample (float_add a d) d n \<le> m"
      using Suc.prems(2) by (simp add: alpha_sample_Suc)
  qed
  show ?case
  proof (cases "body t a s")
    case (Inl e)
    then show ?thesis using a by (subst process_loop.simps) (simp add: schedule_Suc)
  next
    case (Inr s')
    then show ?thesis using a by (subst process_loop.simps) (simp add: schedule_Suc IH)
  qed
qed

section \<open>The focal stack: the work on one view\<close>

lemma view_rows_channels:
  assumes "0 \<le> x" "x < xSize lf" "0 \<le> y"
  shows "write_channels (view_rows lf u v view y x) x y 0 (channels (image_lf lf)) (lf_val lf x y u v)
         = view_rows lf u v view y (x + 1)"
proof (rule NewImage.equality)
  show "data (write_channels (view_rows lf u v view y x) x y 0 (channels (image_lf lf))
           (lf_val lf x y u v)) = data (view_rows lf u v view y (x + 1))"
    using assms by (auto simp: write_channels_def view_rows_def fun_eq_iff)
qed (simp_all add: write_channels_def view_rows_def)

lemma view_rows_next_row:
  assumes "0 \<le> y"
  shows "view_rows lf u v view y (xSize lf) = view_rows lf u v view (y + 1) 0"
proof (rule NewImage.equality)
  show "data (view_rows lf u v view y (xSize lf)) = data (view_rows lf u v view (y + 1) 0)"
    using assms by (auto simp: view_rows_def fun_eq_iff)
qed (simp_all add: view_rows_def)

lemma view_rows_none: "view_rows lf u v view 0 0 = view"
proof (rule NewImage.equality)
  show "data (view_rows lf u v view 0 0) = data view"
    by (auto simp: view_rows_def fun_eq_iff)
qed (simp_all add: view_rows_def)

lemma extract_view_rows:
  assumes wf: "lf_wf lf"
    and uv: "0 \<le> u" "u < uSize lf" "0 \<le> v" "v < vSize lf"
    and ext: "same_extents view (new_image (xSize lf) (ySize lf) 1 (channels (image_lf lf)))"
  shows "extract_view lf u v view = Inr (view_rows lf u v view (ySize lf) 0)"
proof -
  have ext': "width view = xSize lf" "height view = ySize lf" "frames view = 1"
      "channels view = channels (image_lf lf)"
    using ext by (simp_all add: same_extents_def new_image_def)
  obtain nc where nc: "channels (image_lf lf) = int nc"
    using wf by (auto simp: lf_wf_def elim: nonneg_int_cases)
  have pixel: "for_loop (channels (image_lf lf))
           (\<lambda>c view. bindE (lf_get lf x y u v c) (im_set view x y 0 c))
           (view_rows lf u v view y x) = Inr (view_rows lf u v view y (x + 1))"
    if "0 \<le> x" "x < xSize lf" "0 \<le> y" "y < ySize lf" for x y
  proof -
    have inlf: "in_lf lf x y u v" using that uv by (simp add: in_lf_def)
    have "for_loop (int nc) (\<lambda>c view. bindE (lf_get lf x y u v c) (im_set view x y 0 c))
            (view_rows lf u v view y x) =
          Inr (write_channels (view_rows lf u v view y x) x y 0 (int nc) (lf_val lf x y u v))"
    proof (rule channel_loop_writes)
      fix c assume "0 \<le> c" "c < int nc"
      then show "lf_get lf x y u v c = Inr (lf_val lf x y u v c)"
        using lf_get_ok [OF wf inlf, of c] nc by (simp add: lf_val_def)
    qed (use that ext' nc in \<open>simp_all add: view_rows_def\<close>)
    then show ?thesis
      using view_rows_channels [OF that(1,2,3)] nc by simp
  qed
  have row: "for_loop (xSize lf) (\<lambda>x.
         for_loop (channels (image_lf lf)) (\<lambda>c view.
           bindE (lf_get lf x y u v c) (im_set view x y 0 c)))
         (view_rows lf u v view y 0) = Inr (view_rows lf u v view (y + 1) 0)"
    if "0 \<le> y" "y < ySize lf" for y
  proof -
    have "for_loop (xSize lf) (\<lambda>x.
         for_loop (channels (image_lf lf)) (\<lambda>c view.
           bindE (lf_get lf x y u v c) (im_set view x y 0 c)))
         (view_rows lf u v view y (int 0)) = Inr (view_rows lf u v view y (int (nat (xSize lf))))"
      by (rule for_loop_steps [where G = "\<lambda>i. view_rows lf u v view y (int i)"])
         (use pixel that in \<open>simp add: add.commute\<close>)
    then show ?thesis
      using wf view_rows_next_row [OF that(1)] by (simp add: lf_wf_def)
  qed
  have "for_loop (ySize lf) (\<lambda>y.
       for_loop (xSize lf) (\<lambda>x.
         for_loop (channels (image_lf lf)) (\<lambda>c view.
           bindE (lf_get lf x y u v c) (im_set view x y 0 c))))
       (view_rows lf u v view (int 0) 0) = Inr (view_rows lf u v view (int (nat (ySize lf))) 0)"
    by (rule for_loop_steps [where G = "\<lambda>i. view_rows lf u v view (int i) 0"])
       (use row in \<open>simp add: add.commute\<close>)
  then show ?thesis
    using wf by (simp add: extract_view_def view_rows_none lf_wf_def)
qed

lemma same_extents_refl [simp]: "same_extents a a"
  by (simp add: same_extents_def)

lemma same_extents_trans: "same_extents a b \<Longrightarrow> same_extents b c \<Longrightarrow> same_extents a c"
  by (simp add: same_extents_def)

lemma same_extents_view_rows [simp]: "same_extents (view_rows lf u v view ny nx) view"
  by (simp add: same_extents_def view_rows_def)

lemma keeps_extents_views:
  assumes "keeps_extents Translate LanczosBlur"
  shows "same_extents (blur_view LanczosBlur alpha (shift_view Translate lf alpha u v view)) view"
proof -
  have "same_extents (shift_view Translate lf alpha u v view) view"
    using assms by (simp add: shift_view_def keeps_extents_def)
  moreover have "same_extents (blur_view LanczosBlur alpha w) w" for w
    using assms by (simp add: blur_view_def keeps_extents_def)
  ultimately show ?thesis by (blast intro: same_extents_trans)
qed

text \<open>
  The work on one view succeeds when the frame index is one of the output's frames; it adds
  the processed view to that frame and leaves the other frames as they are.
\<close>

lemma view_step_ok:
  assumes wf: "lf_wf lf" and keeps: "keeps_extents Translate LanczosBlur"
    and uv: "0 \<le> u" "u < uSize lf" "0 \<le> v" "v < vSize lf"
    and t: "0 \<le> t" "t < n"
    and inv: "stack_inv lf n (out, view)"
  shows "\<exists>out' view'. view_step Translate LanczosBlur lf t alpha v u (out, view) = Inr (out', view') \<and>
      stack_inv lf n (out', view') \<and>
      view' = blur_view LanczosBlur alpha
                (shift_view Translate lf alpha u v (view_rows lf u v view (ySize lf) 0)) \<and>
      (\<forall>x y t' c. data out' (x, y, t', c) =
         (if t' = t then data out (x, y, t, c) + data view' (x, y, 0, c)
          else data out (x, y, t', c)))"
proof -
  define view' where "view' = blur_view LanczosBlur alpha
                (shift_view Translate lf alpha u v (view_rows lf u v view (ySize lf) 0))"
  define out' where "out' = out\<lparr>data := (\<lambda>(x, y, t', c).
             if t' = t then data out (x, y, t', c) + data view' (x, y, 0, c)
             else data out (x, y, t', c))\<rparr>"
  have vext: "same_extents view (new_image (xSize lf) (ySize lf) 1 (channels (image_lf lf)))"
    and oext: "same_extents out (new_image (xSize lf) (ySize lf) n (channels (image_lf lf)))"
    using inv by (simp_all add: stack_inv_def)
  have ex: "extract_view lf u v view = Inr (view_rows lf u v view (ySize lf) 0)"
    by (rule extract_view_rows [OF wf uv vext])
  have v'ext: "same_extents view' (new_image (xSize lf) (ySize lf) 1 (channels (image_lf lf)))"
    unfolding view'_def
    by (blast intro: same_extents_trans keeps_extents_views [OF keeps] same_extents_view_rows vext)
  have add: "frame_add out t view' = Inr out'"
    using t oext v'ext by (simp add: frame_add_def same_extents_def new_image_def out'_def)
  have step: "view_step Translate LanczosBlur lf t alpha v u (out, view) = Inr (out', view')"
    by (simp add: view_step_def ex Let_def view'_def [symmetric] add)
  have "stack_inv lf n (out', view')"
    using oext v'ext by (simp add: stack_inv_def out'_def same_extents_def)
  moreover have "\<forall>x y t' c. data out' (x, y, t', c) =
         (if t' = t then data out (x, y, t, c) + data view' (x, y, 0, c)
          else data out (x, y, t', c))"
    by (simp add: out'_def)
  ultimately show ?thesis using step view'_def by blast
qed

lemma frame_step_inv:
  assumes "Q s"
    and "\<And>u v s. 0 \<le> u \<Longrightarrow> u < uSize lf \<Longrightarrow> 0 \<le> v \<Longrightarrow> v < vSize lf \<Longrightarrow> Q s \<Longrightarrow>
           \<exists>s'. view_step Translate LanczosBlur lf t alpha v u s = Inr s' \<and> Q s'"
  shows "\<exists>s'. frame_step Translate LanczosBlur lf t alpha s = Inr s' \<and> Q s'"
  unfolding frame_step_def
proof (rule for_loop_inv [where I = Q, OF assms(1)])
  fix v s1
  assume v: "0 \<le> v" "v < vSize lf" and s1: "Q s1"
  show "\<exists>s'. for_loop (uSize lf) (\<lambda>u. view_step Translate LanczosBlur lf t alpha v u) s1 = Inr s' \<and> Q s'"
    by (rule for_loop_inv [where I = Q, OF s1]) (use assms(2) v in blast)
qed

lemma frame_step_ok:
  assumes wf: "lf_wf lf" and keeps: "keeps_extents Translate LanczosBlur"
    and t: "0 \<le> t" "t < n"
    and inv: "stack_inv lf n s"
  shows "\<exists>s'. frame_step Translate LanczosBlur lf t alpha s = Inr s' \<and> stack_inv lf n s'"
proof (rule frame_step_inv [where Q = "stack_inv lf n", OF inv])
  fix u v s1
  assume uv: "0 \<le> u" "u < uSize lf" "0 \<le> v" "v < vSize lf" and s1: "stack_inv lf n s1"
  obtain out view where s1': "s1 = (out, view)" by (cases s1)
  show "\<exists>s'. view_step Translate LanczosBlur lf t alpha v u s1 = Inr s' \<and> stack_inv lf n s'"
    using view_step_ok [OF wf keeps uv t, of out view alpha] s1 unfolding s1' by blast
qed

lemma schedule_set:
  "(t', a') \<in> set (schedule a d t n) \<Longrightarrow> t \<le> t' \<and> t' < t + int n"
  by (auto simp: schedule_def)

lemma stack_inv_init:
  "stack_inv lf n (new_image (xSize lf) (ySize lf) n (channels (image_lf lf)),
                   new_image (xSize lf) (ySize lf) 1 (channels (image_lf lf)))"
  by (simp add: stack_inv_def)

text \<open>
  The whole operation: when the counting loop returns \<open>n\<close>, the processing loop runs its
  body on the \<open>n\<close> samples, no step fails, and the output has \<open>n\<close> frames.
\<close>

lemma LFFocalStack_apply_ok:
  assumes wf: "lf_wf lf" and one: "frames (image_lf lf) = 1"
    and keeps: "keeps_extents Translate LanczosBlur"
    and count: "count_loop minAlpha maxAlpha deltaAlpha 0 = Some n"
  shows "\<exists>out view.
      for_each (schedule minAlpha deltaAlpha 0 (nat n))
        (\<lambda>(t, alpha). frame_step Translate LanczosBlur lf t alpha)
        (new_image (xSize lf) (ySize lf) n (channels (image_lf lf)),
         new_image (xSize lf) (ySize lf) 1 (channels (image_lf lf))) = Inr (out, view) \<and>
      stack_inv lf n (out, view) \<and>
      LFFocalStack_apply Translate LanczosBlur lf minAlpha maxAlpha deltaAlpha =
        Some (Inr (image_div out (real_of_int (uSize lf * vSize lf))))"
proof -
  from count_loop_Some_samples [OF count] obtain k where
    k: "n = int k" "\<forall>j<k. alpha_sample minAlpha deltaAlpha j \<le> maxAlpha"
       "\<not> alpha_sample minAlpha deltaAlpha k \<le> maxAlpha"
    by auto
  let ?s0 = "(new_image (xSize lf) (ySize lf) n (channels (image_lf lf)),
             new_image (xSize lf) (ySize lf) 1 (channels (image_lf lf)))"
  have proc: "process_loop (frame_step Translate LanczosBlur lf) minAlpha maxAlpha deltaAlpha 0 ?s0 =
      Some (for_each (schedule minAlpha deltaAlpha 0 k)
        (\<lambda>(t, alpha). frame_step Translate LanczosBlur lf t alpha) ?s0)"
    by (rule process_loop_samples [OF k(2,3)])
  have "\<exists>s'. for_each (schedule minAlpha deltaAlpha 0 k)
        (\<lambda>(t, alpha). frame_step Translate LanczosBlur lf t alpha) ?s0 = Inr s' \<and> stack_inv lf n s'"
  proof (rule for_each_inv [where I = "stack_inv lf n", OF stack_inv_init])
    fix i s
    assume i: "i \<in> set (schedule minAlpha deltaAlpha 0 k)" and s: "stack_inv lf n s"
    obtain t a where ta: "i = (t, a)" by (cases i)
    have "0 \<le> t" "t < n"
      using schedule_set [of t a minAlpha deltaAlpha 0 k] i k(1) unfolding ta by simp_all
    from frame_step_ok [OF wf keeps this s]
    show "\<exists>s'. (case i of (t, alpha) \<Rightarrow> frame_step Translate LanczosBlur lf t alpha) s = Inr s' \<and>
        stack_inv lf n s'"
      by (simp add: ta)
  qed
  then obtain out view where
    run: "for_each (schedule minAlpha deltaAlpha 0 k)
        (\<lambda>(t, alpha). frame_step Translate LanczosBlur lf t alpha) ?s0 = Inr (out, view)"
    and inv: "stack_inv lf n (out, view)"
    by auto
  have "LFFocalStack_apply Translate LanczosBlur lf minAlpha maxAlpha deltaAlpha =
        Some (Inr (image_div out (real_of_int (uSize lf * vSize lf))))"
    by (simp add: LFFocalStack_apply_def one count proc run)
  with run inv k(1) show ?thesis by auto
qed

section \<open>The focal stack: frames and samples\<close>

lemma for_each_log_step:
  "for_each xs (\<lambda>(t, alpha). log_step t alpha) steps = Inr (steps @ xs)"
  by (induction xs arbitrary: steps) (auto simp: log_step_def)

lemma example_lf_one_frame: "frames (image_lf example_lf) = 1"
  by (simp add: example_lf_def light_field_def)

lemma keeps_extents_no: "keeps_extents no_translate no_blur"
  by (simp add: keeps_extents_def no_translate_def no_blur_def)

lemma float_add_0_1: "float_add 0 1 = 1"
  unfolding float_add_def by code_simp

lemma float_add_1_1: "float_add 1 1 = 2"
  unfolding float_add_def by code_simp

lemma count_loop_0_1_1: "count_loop 0 1 1 0 = Some 2"
  by (subst count_loop.simps, simp add: float_add_0_1)
     (subst count_loop.simps, simp add: float_add_1_1, subst count_loop.simps, simp)

text \<open>
  Claim C10. The counting loop and the processing loop iterate over the same samples. If
  the counting loop never returns, neither does the operation. If it returns \<open>n\<close>, then
  \<open>n\<close> is the number of samples up to the first that exceeds \<open>maxAlpha\<close>, the processing
  loop runs its body on exactly these samples with the frame indices \<open>0, \<dots>, n - 1\<close>, in
  this order, and the operation returns an image of \<open>n\<close> frames: no accumulation is out of
  the bounds of the output.
\<close>

theorem focal_stack_loops_agree:
  assumes wf: "lf_wf lf" and one: "frames (image_lf lf) = 1"
    and keeps: "keeps_extents Translate LanczosBlur"
  shows "(count_loop minAlpha maxAlpha deltaAlpha 0 = None \<longrightarrow>
            LFFocalStack_apply Translate LanczosBlur lf minAlpha maxAlpha deltaAlpha = None) \<and>
         (\<forall>n. count_loop minAlpha maxAlpha deltaAlpha 0 = Some n \<longrightarrow>
            0 \<le> n \<and>
            (\<forall>k<nat n. alpha_sample minAlpha deltaAlpha k \<le> maxAlpha) \<and>
            \<not> alpha_sample minAlpha deltaAlpha (nat n) \<le> maxAlpha \<and>
            process_loop log_step minAlpha maxAlpha deltaAlpha 0 [] =
              Some (Inr (map (\<lambda>k. (int k, alpha_sample minAlpha deltaAlpha k)) [0..<nat n])) \<and>
            (\<exists>out. LFFocalStack_apply Translate LanczosBlur lf minAlpha maxAlpha deltaAlpha =
                     Some (Inr out) \<and> frames out = n))"
proof -
  have none: "LFFocalStack_apply Translate LanczosBlur lf minAlpha maxAlpha deltaAlpha = None"
    if "count_loop minAlpha maxAlpha deltaAlpha 0 = None"
    using that by (simp add: LFFocalStack_apply_def one)
  have some: "0 \<le> n \<and>
      (\<forall>k<nat n. alpha_sample minAlpha deltaAlpha k \<le> maxAlpha) \<and>
      \<not> alpha_sample minAlpha deltaAlpha (nat n) \<le> maxAlpha \<and>
      process_loop log_step minAlpha maxAlpha deltaAlpha 0 [] =
        Some (Inr (map (\<lambda>k. (int k, alpha_sample minAlpha deltaAlpha k)) [0..<nat n])) \<and>
      (\<exists>out. LFFocalStack_apply Translate LanczosBlur lf minAlpha maxAlpha deltaAlpha =
               Some (Inr out) \<and> frames out = n)"
    if count: "count_loop minAlpha maxAlpha deltaAlpha 0 = Some n" for n
  proof -
    from count_loop_Some_samples [OF count] obtain k where
      k: "n = int k" "\<forall>j<k. alpha_sample minAlpha deltaAlpha j \<le> maxAlpha"
         "\<not> alpha_sample minAlpha deltaAlpha k \<le> maxAlpha"
      by auto
    have steps: "process_loop log_step minAlpha maxAlpha deltaAlpha 0 [] =
        Some (Inr (map (\<lambda>k. (int k, alpha_sample minAlpha deltaAlpha k)) [0..<nat n]))"
      using process_loop_samples [OF k(2,3), of log_step 0 "[]"] k(1)
      by (simp add: for_each_log_step schedule_def)
    from LFFocalStack_apply_ok [OF wf one keeps count] obtain out view where
      "stack_inv lf n (out, view)"
      "LFFocalStack_apply Translate LanczosBlur lf minAlpha maxAlpha deltaAlpha =
         Some (Inr (image_div out (real_of_int (uSize lf * vSize lf))))"
      by blast
    then have "\<exists>out. LFFocalStack_apply Translate LanczosBlur lf minAlpha maxAlpha deltaAlpha =
        Some (Inr out) \<and> frames out = n"
      by (simp add: stack_inv_def same_extents_def new_image_def image_div_def)
    with steps k show ?thesis by simp
  qed
  show ?thesis using none some by blast
qed

theorem focal_stack_loops_agree_witness:
  "lf_wf example_lf \<and> frames (image_lf example_lf) = 1 \<and> keeps_extents no_translate no_blur \<and>
   count_loop 0 1 1 0 = Some 2 \<and>
   process_loop log_step 0 1 1 0 [] = Some (Inr [(0, 0), (1, 1)]) \<and>
   (\<exists>out. LFFocalStack_apply no_translate no_blur example_lf 0 1 1 = Some (Inr out) \<and>
      frames out = 2)"
proof -
  have s: "alpha_sample 0 1 0 = 0" "alpha_sample 0 1 (Suc 0) = 1"
    by (simp_all add: alpha_sample_step float_add_0_1)
  have l: "[0..<2] = [0, Suc 0]"
    by (simp add: numeral_2_eq_2)
  show ?thesis
    using focal_stack_loops_agree [OF example_lf_wf example_lf_one_frame keeps_extents_no, of 0 1 1]
      example_lf_wf example_lf_one_frame keeps_extents_no
    by (simp add: count_loop_0_1_1 s l)
qed

text \<open>
  Claim C3, as amended. With \<open>minAlpha \<le> maxAlpha\<close> and \<open>deltaAlpha > 0\<close>, when every
  addition \<open>alpha += deltaAlpha\<close> up to the one that leaves the range is exact in binary32, the
  output has \<open>floor ((maxAlpha - minAlpha) / deltaAlpha) + 1\<close> frames, one for each of the
  samples \<open>minAlpha + k * deltaAlpha\<close>.
\<close>

theorem focal_stack_frame_count:
  assumes wf: "lf_wf lf" and one: "frames (image_lf lf) = 1"
    and keeps: "keeps_extents Translate LanczosBlur"
    and range: "minAlpha \<le> maxAlpha" and pos: "0 < deltaAlpha"
    and exact: "\<forall>k. int k \<le> \<lfloor>(maxAlpha - minAlpha) / deltaAlpha\<rfloor> \<longrightarrow>
        float_add (minAlpha + real k * deltaAlpha) deltaAlpha = minAlpha + real (Suc k) * deltaAlpha"
  shows "\<exists>out. LFFocalStack_apply Translate LanczosBlur lf minAlpha maxAlpha deltaAlpha = Some (Inr out) \<and>
      frames out = \<lfloor>(maxAlpha - minAlpha) / deltaAlpha\<rfloor> + 1 \<and>
      (\<forall>k. int k < frames out \<longrightarrow>
         alpha_sample minAlpha deltaAlpha k = minAlpha + real k * deltaAlpha)"
proof -
  define q where "q = (maxAlpha - minAlpha) / deltaAlpha"
  define N where "N = nat \<lfloor>q\<rfloor>"
  have q0: "0 \<le> q" using range pos by (simp add: q_def)
  then have N: "int N = \<lfloor>q\<rfloor>" by (simp add: N_def)
  have samples: "alpha_sample minAlpha deltaAlpha k = minAlpha + real k * deltaAlpha"
    if "k \<le> Suc N" for k
    using that
  proof (induction k)
    case 0
    then show ?case by simp
  next
    case (Suc k)
    then have "int k \<le> \<lfloor>(maxAlpha - minAlpha) / deltaAlpha\<rfloor>"
      using N by (simp add: q_def)
    with exact have "float_add (minAlpha + real k * deltaAlpha) deltaAlpha =
        minAlpha + real (Suc k) * deltaAlpha"
      by blast
    then show ?case using Suc by (simp add: alpha_sample_step)
  qed
  have below: "alpha_sample minAlpha deltaAlpha k \<le> maxAlpha" if "k < Suc N" for k
  proof -
    have "real k \<le> real_of_int \<lfloor>q\<rfloor>" using that N by (metis less_Suc_eq_le of_int_of_nat_eq of_nat_le_iff)
    also have "\<dots> \<le> q" by simp
    finally have "real k * deltaAlpha \<le> maxAlpha - minAlpha"
      using pos by (simp add: q_def field_simps)
    then show ?thesis using samples [of k] that by simp
  qed
  have above: "\<not> alpha_sample minAlpha deltaAlpha (Suc N) \<le> maxAlpha"
  proof -
    have "q < real_of_int \<lfloor>q\<rfloor> + 1" by linarith
    also have "\<dots> = real (Suc N)" using N by (metis of_int_of_nat_eq of_nat_Suc add.commute)
    finally have "maxAlpha - minAlpha < real (Suc N) * deltaAlpha"
      using pos by (simp add: q_def field_simps)
    then show ?thesis using samples [of "Suc N"] by simp
  qed
  have count: "count_loop minAlpha maxAlpha deltaAlpha 0 = Some (int (Suc N))"
    using count_loop_samples [of "Suc N" minAlpha deltaAlpha maxAlpha 0] below above by simp
  from LFFocalStack_apply_ok [OF wf one keeps count] obtain out view where
    inv: "stack_inv lf (int (Suc N)) (out, view)" and
    ap: "LFFocalStack_apply Translate LanczosBlur lf minAlpha maxAlpha deltaAlpha =
       Some (Inr (image_div out (real_of_int (uSize lf * vSize lf))))"
    by blast
  have fr: "frames (image_div out (real_of_int (uSize lf * vSize lf))) = \<lfloor>q\<rfloor> + 1"
    using inv N by (simp add: stack_inv_def same_extents_def new_image_def image_div_def)
  have "\<forall>k. int k < \<lfloor>q\<rfloor> + 1 \<longrightarrow>
      alpha_sample minAlpha deltaAlpha k = minAlpha + real k * deltaAlpha"
    using samples N by (simp add: less_Suc_eq_le)
  with ap fr show ?thesis unfolding q_def by simp
qed

theorem focal_stack_frame_count_witness:
  "lf_wf example_lf \<and> frames (image_lf example_lf) = 1 \<and> keeps_extents no_translate no_blur \<and>
   (0::real) \<le> 1 \<and> (0::real) < 1 \<and>
   float_add (0 + real 0 * 1) 1 = 0 + real (Suc 0) * 1 \<and>
   float_add (0 + real 1 * 1) 1 = 0 + real (Suc 1) * 1 \<and>
   (\<exists>out. LFFocalStack_apply no_translate no_blur example_lf 0 1 1 = Some (Inr out) \<and>
      frames out = 2)"
proof -
  have exact: "\<forall>k. int k \<le> \<lfloor>(1 - 0) / (1::real)\<rfloor> \<longrightarrow>
      float_add (0 + real k * 1) 1 = 0 + real (Suc k) * 1"
  proof (intro allI impI)
    fix k :: nat
    assume "int k \<le> \<lfloor>(1 - 0) / (1::real)\<rfloor>"
    then have "k = 0 \<or> k = 1" by auto
    then show "float_add (0 + real k * 1) 1 = 0 + real (Suc k) * 1"
      by (auto simp: float_add_0_1 float_add_1_1)
  qed
  from focal_stack_frame_count [OF example_lf_wf example_lf_one_frame keeps_extents_no _ _ exact]
  obtain out where
    "LFFocalStack_apply no_translate no_blur example_lf 0 1 1 = Some (Inr out)" "frames out = 2"
    by auto
  then show ?thesis
    using example_lf_wf example_lf_one_frame keeps_extents_no
    by (simp add: float_add_0_1 float_add_1_1)
qed

lemma float_add_stuck: "float_add 16777216 1 = 16777216"
  unfolding float_add_def by code_simp

lemma alpha_sample_stuck:
  assumes "float_add a d = a"
  shows "alpha_sample a d k = a"
  by (induction k) (simp_all add: alpha_sample_step assms)

text \<open>
  Claim C3, as stated, fails: from \<open>minAlpha = 16777216\<close> with the step 1 and
  \<open>maxAlpha = 16777218\<close> the formula gives 3 frames, but in binary32
  \<open>16777216 + 1\<close> rounds to \<open>16777216\<close>, \<open>alpha\<close> never advances, and the operation never
  returns.
\<close>

theorem focal_stack_frame_count_counterexample:
  "(16777216::real) \<le> 16777218 \<and> (0::real) < 1 \<and>
   \<lfloor>(16777218 - 16777216) / (1::real)\<rfloor> + 1 = 3 \<and>
   frames (image_lf example_lf) = 1 \<and>
   float_add 16777216 1 = 16777216 \<and>
   LFFocalStack_apply no_translate no_blur example_lf 16777216 16777218 1 = None"
proof -
  have "count_loop 16777216 16777218 1 0 = None"
    by (rule count_loop_None) (simp add: alpha_sample_stuck [OF float_add_stuck])
  then show ?thesis
    by (simp add: LFFocalStack_apply_def example_lf_one_frame float_add_stuck)
qed

section \<open>The focal stack: a step that is not positive\<close>

lemma count_loop_empty: "maxAlpha < minAlpha \<Longrightarrow> count_loop minAlpha maxAlpha deltaAlpha n = Some n"
  by (subst count_loop.simps) simp

lemma process_loop_empty:
  "maxAlpha < minAlpha \<Longrightarrow> process_loop body minAlpha maxAlpha deltaAlpha t s = Some (Inr s)"
  by (subst process_loop.simps) simp

lemma LFFocalStack_apply_empty:
  assumes "frames (image_lf lf) = 1" "maxAlpha < minAlpha"
  shows "LFFocalStack_apply Translate LanczosBlur lf minAlpha maxAlpha deltaAlpha =
     Some (Inr (image_div (new_image (xSize lf) (ySize lf) 0 (channels (image_lf lf)))
                  (real_of_int (uSize lf * vSize lf))))"
  using assms by (simp add: LFFocalStack_apply_def count_loop_empty process_loop_empty)

lemma alpha_sample_below:
  assumes "deltaAlpha \<le> 0" "minAlpha \<le> maxAlpha" "float_round maxAlpha = maxAlpha"
  shows "alpha_sample minAlpha deltaAlpha k \<le> maxAlpha"
proof (induction k)
  case 0
  then show ?case using assms(2) by simp
next
  case (Suc k)
  have "float_round (alpha_sample minAlpha deltaAlpha k + deltaAlpha) \<le> float_round maxAlpha"
    using Suc assms(1) by (intro float_round_mono) simp
  then show ?case by (simp add: alpha_sample_step float_add_def assms(3))
qed

text \<open>
  Claim C8, as amended. The operation does not check the step. With \<open>deltaAlpha \<le> 0\<close>, for a
  light field of one frame and a \<open>maxAlpha\<close> that is a binary32 value: if
  \<open>maxAlpha < minAlpha\<close> it returns an image of no frames and reports no error, and if
  \<open>minAlpha \<le> maxAlpha\<close> it never returns.
\<close>

theorem focal_stack_nonpositive_step:
  assumes "deltaAlpha \<le> 0" "frames (image_lf lf) = 1" "float_round maxAlpha = maxAlpha"
  shows "(maxAlpha < minAlpha \<longrightarrow>
            (\<exists>out. LFFocalStack_apply Translate LanczosBlur lf minAlpha maxAlpha deltaAlpha =
                      Some (Inr out) \<and> frames out = 0)) \<and>
         (minAlpha \<le> maxAlpha \<longrightarrow>
            LFFocalStack_apply Translate LanczosBlur lf minAlpha maxAlpha deltaAlpha = None)"
proof (intro conjI impI)
  assume "maxAlpha < minAlpha"
  from LFFocalStack_apply_empty [OF assms(2) this]
  show "\<exists>out. LFFocalStack_apply Translate LanczosBlur lf minAlpha maxAlpha deltaAlpha =
      Some (Inr out) \<and> frames out = 0"
    by (simp add: image_div_def new_image_def)
next
  assume "minAlpha \<le> maxAlpha"
  then have "count_loop minAlpha maxAlpha deltaAlpha 0 = None"
    by (intro count_loop_None alpha_sample_below assms)
  then show "LFFocalStack_apply Translate LanczosBlur lf minAlpha maxAlpha deltaAlpha = None"
    by (simp add: LFFocalStack_apply_def assms(2))
qed

theorem focal_stack_nonpositive_step_witness:
  "(- 1 :: real) \<le> 0 \<and> frames (image_lf example_lf) = 1 \<and> float_round 0 = 0 \<and>
   (0::real) < 1 \<and>
   (\<exists>out. LFFocalStack_apply no_translate no_blur example_lf 1 0 (- 1) = Some (Inr out) \<and>
      frames out = 0) \<and>
   LFFocalStack_apply no_translate no_blur example_lf 0 0 (- 1) = None"
  using focal_stack_nonpositive_step [where deltaAlpha = "- 1" and lf = example_lf
      and maxAlpha = 0 and minAlpha = 1 and Translate = no_translate and LanczosBlur = no_blur]
    focal_stack_nonpositive_step [where deltaAlpha = "- 1" and lf = example_lf
      and maxAlpha = 0 and minAlpha = 0 and Translate = no_translate and LanczosBlur = no_blur]
  by (simp add: example_lf_one_frame float_round_0)

text \<open>
  Claim C8, as stated, fails: with the step \<open>-1\<close> from 1 to 0 the operation reports no
  error and returns an image of no frames, and with the step 0 from 0 to 0 it never
  returns.
\<close>

theorem focal_stack_nonpositive_step_counterexample:
  "(- 1 :: real) \<le> 0 \<and> (0::real) \<le> 0 \<and> frames (image_lf example_lf) = 1 \<and>
   map_option (map_sum id frames) (LFFocalStack_apply no_translate no_blur example_lf 1 0 (- 1)) =
     Some (Inr 0) \<and>
   LFFocalStack_apply no_translate no_blur example_lf 0 0 0 = None"
proof -
  have "count_loop 0 0 0 0 = None"
    by (rule count_loop_None) (simp add: alpha_sample_below float_round_0)
  then show ?thesis
    by (simp add: LFFocalStack_apply_def example_lf_one_frame count_loop_empty process_loop_empty
          image_div_def new_image_def)
qed

section \<open>The focal stack: the shift of a view\<close>

text \<open>
  Claim C1. A view is to be translated when \<open>alpha * du \<noteq> 0\<close> or \<open>alpha * dv \<noteq> 0\<close>, for the
  centered offsets \<open>du = u - (U - 1) / 2\<close> and \<open>dv = v - (V - 1) / 2\<close>. The source tests
  \<open>alpha * u\<close> and \<open>alpha * v\<close> instead: for \<open>alpha = 1\<close> and the view \<open>(0, 0)\<close> of 2 by 2
  views the shift is \<open>(-1/2, -1/2)\<close>, and the source leaves the view as it is, whatever the
  translate operator does.
\<close>

theorem shift_view_skips_first_view:
  "(real_of_int 0 - real_of_int (uSize example_lf - 1) / 2) * 1 = - 1 / 2 \<and>
   (real_of_int 0 - real_of_int (vSize example_lf - 1) / 2) * 1 = - 1 / 2 \<and>
   (\<forall>Translate view. shift_view Translate example_lf 1 0 0 view = view) \<and>
   (\<forall>Translate view. shift_view Translate example_lf 1 1 0 view =
      Translate view (1 / 2) (- 1 / 2))"
  by (simp add: shift_view_def example_lf_def light_field_def)

theorem shift_view_skips_first_view_witness:
  "shift_view zero_translate example_lf 1 0 0 (image_lf example_lf) = image_lf example_lf \<and>
   data (image_lf example_lf) (1, 0, 0, 0) = 1 \<and>
   data (shift_view zero_translate example_lf 1 1 0 (image_lf example_lf)) (1, 0, 0, 0) = 0"
  using shift_view_skips_first_view
  by (simp add: zero_translate_def) (simp add: example_lf_def light_field_def)

section \<open>The focal stack: the frame of \<open>alpha = 0\<close>\<close>

lemma view_sum_Suc: "view_sum lf nv (Suc nu) x y c = view_sum lf nv nu x y c + lf_val lf x y (int nu) (int nv) c"
  by (simp add: view_sum_def)

lemma view_sum_next_row: "view_sum lf nv (nat (uSize lf)) x y c = view_sum lf (Suc nv) 0 x y c"
  by (simp add: view_sum_def)

lemma view_sum_0: "view_sum lf 0 0 x y c = 0"
  by (simp add: view_sum_def)

lemma view_average_sum:
  "view_average lf x y c = view_sum lf (nat (vSize lf)) 0 x y c / real_of_int (uSize lf * vSize lf)"
  by (simp add: view_average_def view_sum_def lf_val_def)

lemma shift_view_zero: "shift_view Translate lf 0 u v view = view"
  by (simp add: shift_view_def)

lemma blur_view_zero: "blur_view LanczosBlur 0 view = view"
  by (simp add: blur_view_def)

lemma view_rows_full:
  assumes "0 \<le> x" "x < xSize lf" "0 \<le> y" "y < ySize lf" "0 \<le> c" "c < channels (image_lf lf)"
  shows "data (view_rows lf u v view (ySize lf) 0) (x, y, 0, c) = lf_val lf x y u v c"
  using assms by (simp add: view_rows_def)

lemma view_step_other_frame:
  assumes wf: "lf_wf lf" and keeps: "keeps_extents Translate LanczosBlur"
    and uv: "0 \<le> u" "u < uSize lf" "0 \<le> v" "v < vSize lf"
    and t: "0 \<le> t" "t < n" "t \<noteq> k"
    and inv: "stack_inv lf n s \<and> frame_is lf k g s"
  shows "\<exists>s'. view_step Translate LanczosBlur lf t alpha v u s = Inr s' \<and>
      stack_inv lf n s' \<and> frame_is lf k g s'"
proof -
  obtain out view where s: "s = (out, view)" by (cases s)
  from view_step_ok [OF wf keeps uv t(1,2), of out view alpha] inv obtain out' view' where
    r: "view_step Translate LanczosBlur lf t alpha v u (out, view) = Inr (out', view')"
       "stack_inv lf n (out', view')"
       "\<forall>x y t' c. data out' (x, y, t', c) =
         (if t' = t then data out (x, y, t, c) + data view' (x, y, 0, c)
          else data out (x, y, t', c))"
    unfolding s by blast
  have "frame_is lf k g (out', view')"
    using inv t(3) r(3) by (simp add: frame_is_def s)
  with r(1,2) show ?thesis unfolding s by blast
qed

lemma frame_step_other_frame:
  assumes wf: "lf_wf lf" and keeps: "keeps_extents Translate LanczosBlur"
    and t: "0 \<le> t" "t < n" "t \<noteq> k"
    and inv: "stack_inv lf n s \<and> frame_is lf k g s"
  shows "\<exists>s'. frame_step Translate LanczosBlur lf t alpha s = Inr s' \<and>
      (stack_inv lf n s' \<and> frame_is lf k g s')"
  by (rule frame_step_inv [where Q = "\<lambda>s. stack_inv lf n s \<and> frame_is lf k g s", OF inv])
     (rule view_step_other_frame [OF wf keeps _ _ _ _ t])

lemma view_step_zero:
  assumes wf: "lf_wf lf" and keeps: "keeps_extents Translate LanczosBlur"
    and uv: "nu < nat (uSize lf)" "nv < nat (vSize lf)"
    and k: "0 \<le> k" "k < n"
    and inv: "stack_inv lf n s \<and> frame_is lf k (\<lambda>x y c. g x y c + view_sum lf nv nu x y c) s"
  shows "\<exists>s'. view_step Translate LanczosBlur lf k 0 (int nv) (int nu) s = Inr s' \<and>
      stack_inv lf n s' \<and> frame_is lf k (\<lambda>x y c. g x y c + view_sum lf nv (Suc nu) x y c) s'"
proof -
  obtain out view where s: "s = (out, view)" by (cases s)
  have uv': "0 \<le> int nu" "int nu < uSize lf" "0 \<le> int nv" "int nv < vSize lf"
    using uv by simp_all
  from view_step_ok [OF wf keeps uv' k, of out view 0] inv obtain out' view' where
    r: "view_step Translate LanczosBlur lf k 0 (int nv) (int nu) (out, view) = Inr (out', view')"
       "stack_inv lf n (out', view')"
       "view' = blur_view LanczosBlur 0
                (shift_view Translate lf 0 (int nu) (int nv)
                  (view_rows lf (int nu) (int nv) view (ySize lf) 0))"
       "\<forall>x y t' c. data out' (x, y, t', c) =
         (if t' = k then data out (x, y, k, c) + data view' (x, y, 0, c)
          else data out (x, y, t', c))"
    unfolding s by blast
  have v': "view' = view_rows lf (int nu) (int nv) view (ySize lf) 0"
    using r(3) by (simp add: shift_view_zero blur_view_zero)
  have "frame_is lf k (\<lambda>x y c. g x y c + view_sum lf nv (Suc nu) x y c) (out', view')"
    unfolding frame_is_def
  proof (intro allI impI)
    fix x y c
    assume a: "0 \<le> x \<and> x < xSize lf \<and> 0 \<le> y \<and> y < ySize lf \<and> 0 \<le> c \<and> c < channels (image_lf lf)"
    then have "data out (x, y, k, c) = g x y c + view_sum lf nv nu x y c"
      using inv by (simp add: frame_is_def s)
    moreover have "data view' (x, y, 0, c) = lf_val lf x y (int nu) (int nv) c"
      unfolding v' using a by (intro view_rows_full) simp_all
    ultimately show "data (fst (out', view')) (x, y, k, c) =
        g x y c + view_sum lf nv (Suc nu) x y c"
      using r(4) by (simp add: view_sum_Suc)
  qed
  with r(1,2) show ?thesis unfolding s by blast
qed

lemma frame_step_zero:
  assumes wf: "lf_wf lf" and keeps: "keeps_extents Translate LanczosBlur"
    and k: "0 \<le> k" "k < n"
    and inv: "stack_inv lf n s \<and> frame_is lf k g s"
  shows "\<exists>s'. frame_step Translate LanczosBlur lf k 0 s = Inr s' \<and>
      stack_inv lf n s' \<and>
      frame_is lf k (\<lambda>x y c. g x y c + view_sum lf (nat (vSize lf)) 0 x y c) s'"
  unfolding frame_step_def
proof (rule for_loop_inv_idx [where I = "\<lambda>nv s. stack_inv lf n s \<and>
      frame_is lf k (\<lambda>x y c. g x y c + view_sum lf nv 0 x y c) s"])
  show "stack_inv lf n s \<and> frame_is lf k (\<lambda>x y c. g x y c + view_sum lf 0 0 x y c) s"
    using inv by (simp add: view_sum_0)
next
  fix nv s1
  assume nv: "nv < nat (vSize lf)"
    and s1: "stack_inv lf n s1 \<and> frame_is lf k (\<lambda>x y c. g x y c + view_sum lf nv 0 x y c) s1"
  have "\<exists>s'. for_loop (uSize lf) (\<lambda>u. view_step Translate LanczosBlur lf k 0 (int nv) u) s1 = Inr s' \<and>
      (stack_inv lf n s' \<and>
       frame_is lf k (\<lambda>x y c. g x y c + view_sum lf nv (nat (uSize lf)) x y c) s')"
  proof (rule for_loop_inv_idx [where I = "\<lambda>nu s. stack_inv lf n s \<and>
      frame_is lf k (\<lambda>x y c. g x y c + view_sum lf nv nu x y c) s", OF s1])
    fix nu s2
    assume "nu < nat (uSize lf)"
      and "stack_inv lf n s2 \<and> frame_is lf k (\<lambda>x y c. g x y c + view_sum lf nv nu x y c) s2"
    then show "\<exists>s'. view_step Translate LanczosBlur lf k 0 (int nv) (int nu) s2 = Inr s' \<and>
        stack_inv lf n s' \<and> frame_is lf k (\<lambda>x y c. g x y c + view_sum lf nv (Suc nu) x y c) s'"
      by (intro view_step_zero [OF wf keeps _ nv k])
  qed
  then show "\<exists>s'. for_loop (uSize lf) (view_step Translate LanczosBlur lf k 0 (int nv)) s1 = Inr s' \<and>
      stack_inv lf n s' \<and> frame_is lf k (\<lambda>x y c. g x y c + view_sum lf (Suc nv) 0 x y c) s'"
    by (simp add: view_sum_next_row)
qed

lemma schedule_split:
  assumes "k < n"
  shows "schedule a d 0 n =
     schedule a d 0 k @ [(int k, alpha_sample a d k)] @
     map (\<lambda>j. (int j, alpha_sample a d j)) [Suc k..<n]"
proof -
  have "[0..<k + (n - k)] = [0..<k] @ [k..<k + (n - k)]"
    by (rule upt_add_eq_append) simp
  moreover have "[k..<n] = k # [Suc k..<n]"
    using assms by (rule upt_conv_Cons)
  ultimately have "[0..<n] = [0..<k] @ [k] @ [Suc k..<n]"
    using assms by simp
  then show ?thesis by (simp add: schedule_def)
qed

lemma frame_is_init:
  "frame_is lf k (\<lambda>x y c. 0)
     (new_image (xSize lf) (ySize lf) n (channels (image_lf lf)),
      new_image (xSize lf) (ySize lf) 1 (channels (image_lf lf)))"
  by (simp add: frame_is_def new_image_def)

text \<open>
  In the run of the processing loop, the frame of a sample \<open>alpha = 0\<close> ends as the sum of
  all views: the frames before it and after it leave it alone.
\<close>

lemma process_frame_zero:
  assumes wf: "lf_wf lf" and keeps: "keeps_extents Translate LanczosBlur"
    and k: "k < n" and zero: "alpha_sample a d k = 0"
    and run: "for_each (schedule a d 0 n) (\<lambda>(t, alpha). frame_step Translate LanczosBlur lf t alpha)
        (new_image (xSize lf) (ySize lf) (int n) (channels (image_lf lf)),
         new_image (xSize lf) (ySize lf) 1 (channels (image_lf lf))) = Inr s'"
  shows "frame_is lf (int k) (\<lambda>x y c. view_sum lf (nat (vSize lf)) 0 x y c) s'"
proof -
  let ?body = "\<lambda>(t, alpha). frame_step Translate LanczosBlur lf t alpha"
  let ?s0 = "(new_image (xSize lf) (ySize lf) (int n) (channels (image_lf lf)),
         new_image (xSize lf) (ySize lf) 1 (channels (image_lf lf)))"
  let ?Q0 = "\<lambda>s. stack_inv lf (int n) s \<and> frame_is lf (int k) (\<lambda>x y c. 0) s"
  let ?Q1 = "\<lambda>s. stack_inv lf (int n) s \<and>
      frame_is lf (int k) (\<lambda>x y c. 0 + view_sum lf (nat (vSize lf)) 0 x y c) s"
  let ?post = "map (\<lambda>j. (int j, alpha_sample a d j)) [Suc k..<n]"
  have "\<exists>s1. for_each (schedule a d 0 k) ?body ?s0 = Inr s1 \<and> ?Q0 s1"
  proof (rule for_each_inv [where I = ?Q0])
    show "?Q0 ?s0" using stack_inv_init frame_is_init by blast
  next
    fix i s
    assume i: "i \<in> set (schedule a d 0 k)" and s: "?Q0 s"
    obtain t al where ta: "i = (t, al)" by (cases i)
    have "0 \<le> t" "t < int n" "t \<noteq> int k"
      using schedule_set [of t al a d 0 k] i k unfolding ta by simp_all
    from frame_step_other_frame [OF wf keeps this s]
    show "\<exists>s'. ?body i s = Inr s' \<and> ?Q0 s'" by (simp add: ta)
  qed
  then obtain s1 where s1: "for_each (schedule a d 0 k) ?body ?s0 = Inr s1" "?Q0 s1" by blast
  have "\<exists>s2. frame_step Translate LanczosBlur lf (int k) 0 s1 = Inr s2 \<and> ?Q1 s2"
    using frame_step_zero [OF wf keeps _ _ s1(2)] k by simp
  then obtain s2 where s2: "frame_step Translate LanczosBlur lf (int k) 0 s1 = Inr s2" "?Q1 s2"
    by blast
  have "\<exists>s3. for_each ?post ?body s2 = Inr s3 \<and> ?Q1 s3"
  proof (rule for_each_inv [where I = ?Q1, OF s2(2)])
    fix i s
    assume i: "i \<in> set ?post" and s: "?Q1 s"
    obtain t al where ta: "i = (t, al)" by (cases i)
    have "0 \<le> t" "t < int n" "t \<noteq> int k"
      using i unfolding ta by auto
    from frame_step_other_frame [OF wf keeps this s]
    show "\<exists>s'. ?body i s = Inr s' \<and> ?Q1 s'" by (simp add: ta)
  qed
  then obtain s3 where s3: "for_each ?post ?body s2 = Inr s3" "?Q1 s3" by blast
  have "for_each (schedule a d 0 n) ?body ?s0 = Inr s3"
    by (simp add: schedule_split [OF k] for_each_append s1(1) zero s2(1) s3(1))
  with run have "s' = s3" by simp
  then show ?thesis using s3(2) by simp
qed

text \<open>
  Claim C4. When the counting loop returns and \<open>alpha = 0\<close> is the sample of the frame
  \<open>k\<close>, the operation returns an image whose frame \<open>k\<close> holds, at every pixel and channel,
  the plain average of all \<open>U * V\<close> views: whatever the translate and the blur operators
  do, they are not applied to a view of this frame.
\<close>

theorem focal_stack_zero_alpha_average:
  assumes wf: "lf_wf lf" and one: "frames (image_lf lf) = 1"
    and keeps: "keeps_extents Translate LanczosBlur"
    and count: "count_loop minAlpha maxAlpha deltaAlpha 0 = Some n"
    and k: "int k < n" and zero: "alpha_sample minAlpha deltaAlpha k = 0"
  shows "\<exists>out. LFFocalStack_apply Translate LanczosBlur lf minAlpha maxAlpha deltaAlpha = Some (Inr out) \<and>
      frames out = n \<and>
      (\<forall>x y c. 0 \<le> x \<and> x < xSize lf \<and> 0 \<le> y \<and> y < ySize lf \<and>
         0 \<le> c \<and> c < channels (image_lf lf) \<longrightarrow>
         data out (x, y, int k, c) = view_average lf x y c)"
proof -
  from LFFocalStack_apply_ok [OF wf one keeps count] obtain out view where
    run: "for_each (schedule minAlpha deltaAlpha 0 (nat n))
        (\<lambda>(t, alpha). frame_step Translate LanczosBlur lf t alpha)
        (new_image (xSize lf) (ySize lf) n (channels (image_lf lf)),
         new_image (xSize lf) (ySize lf) 1 (channels (image_lf lf))) = Inr (out, view)"
    and inv: "stack_inv lf n (out, view)"
    and ap: "LFFocalStack_apply Translate LanczosBlur lf minAlpha maxAlpha deltaAlpha =
        Some (Inr (image_div out (real_of_int (uSize lf * vSize lf))))"
    by blast
  have n: "n = int (nat n)" "k < nat n" using k by simp_all
  have "frame_is lf (int k) (\<lambda>x y c. view_sum lf (nat (vSize lf)) 0 x y c) (out, view)"
    by (rule process_frame_zero [OF wf keeps n(2) zero]) (use run n(1) in simp)
  then have "\<forall>x y c. 0 \<le> x \<and> x < xSize lf \<and> 0 \<le> y \<and> y < ySize lf \<and>
         0 \<le> c \<and> c < channels (image_lf lf) \<longrightarrow>
         data (image_div out (real_of_int (uSize lf * vSize lf))) (x, y, int k, c) =
         view_average lf x y c"
    by (simp add: frame_is_def image_div_def view_average_sum)
  moreover have "frames (image_div out (real_of_int (uSize lf * vSize lf))) = n"
    using inv by (simp add: stack_inv_def same_extents_def new_image_def image_div_def)
  ultimately show ?thesis using ap by blast
qed

lemma keeps_extents_zero: "keeps_extents zero_translate no_blur"
  by (simp add: keeps_extents_def zero_translate_def no_blur_def same_extents_def)

lemma float_add_m1_1: "float_add (- 1) 1 = 0"
  by (simp add: float_add_def float_round_0)

lemma count_loop_m1_1_1: "count_loop (- 1) 1 1 0 = Some 3"
  by (subst count_loop.simps, simp add: float_add_m1_1)
     (subst count_loop.simps, simp add: float_add_0_1,
      subst count_loop.simps, simp add: float_add_1_1, subst count_loop.simps, simp)

theorem focal_stack_zero_alpha_average_witness:
  "lf_wf example_lf \<and> frames (image_lf example_lf) = 1 \<and> keeps_extents zero_translate no_blur \<and>
   count_loop (- 1) 1 1 0 = Some 3 \<and> alpha_sample (- 1) 1 1 = 0 \<and>
   view_average example_lf 1 0 0 = 9 / 2 \<and>
   (\<exists>out. LFFocalStack_apply zero_translate no_blur example_lf (- 1) 1 1 = Some (Inr out) \<and>
      frames out = 3 \<and> data out (1, 0, 1, 0) = 9 / 2)"
proof -
  have s: "alpha_sample (- 1) 1 1 = 0"
    using alpha_sample_step [of "- 1" 1 0] by (simp add: float_add_m1_1)
  have px: "(0::int) \<le> 1 \<and> 1 < xSize example_lf \<and> (0::int) \<le> 0 \<and> 0 < ySize example_lf \<and>
      (0::int) \<le> 0 \<and> 0 < channels (image_lf example_lf)"
    by (simp add: example_lf_def light_field_def)
  have av: "view_average example_lf 1 0 0 = 9 / 2"
    by (simp add: view_average_def example_lf_def light_field_def numeral_2_eq_2)
  from focal_stack_zero_alpha_average
    [OF example_lf_wf example_lf_one_frame keeps_extents_zero count_loop_m1_1_1, of 1]
  obtain out where
    "LFFocalStack_apply zero_translate no_blur example_lf (- 1) 1 1 = Some (Inr out)"
    "frames out = 3"
    "\<forall>x y c. 0 \<le> x \<and> x < xSize example_lf \<and> 0 \<le> y \<and> y < ySize example_lf \<and>
         0 \<le> c \<and> c < channels (image_lf example_lf) \<longrightarrow>
         data out (x, y, int 1, c) = view_average example_lf x y c"
    using s by auto
  then have "LFFocalStack_apply zero_translate no_blur example_lf (- 1) 1 1 = Some (Inr out) \<and>
      frames out = 3 \<and> data out (1, 0, 1, 0) = 9 / 2"
    using px av by auto
  then show ?thesis
    using example_lf_wf example_lf_one_frame keeps_extents_zero count_loop_m1_1_1 s av by blast
qed

end
